theory Spec2Isabelle
  imports Main
begin

section \<open>JavaScript strings\<close>

text \<open>
  Strings are lists of characters (code units below 256).  The helpers below are the
  methods of \<^verbatim>\<open>String.prototype\<close> that \<^verbatim>\<open>src/templateChecker.ts\<close> calls, with the
  behaviour ECMAScript gives them.
\<close>

definition nl :: char where
  "nl = CHR 0x0A"

text \<open>Line terminators and white space (the class \<^verbatim>\<open>\s\<close>, also what \<^verbatim>\<open>trim\<close> strips).\<close>

definition is_lt :: "char \<Rightarrow> bool" where
  "is_lt c = (c = CHR 0x0A \<or> c = CHR 0x0D)"

definition is_space :: "char \<Rightarrow> bool" where
  "is_space c = (c = CHR 0x20 \<or> c = CHR 0x09 \<or> c = CHR 0x0A \<or> c = CHR 0x0B \<or> c = CHR 0x0C
     \<or> c = CHR 0x0D \<or> c = CHR 0xA0)"

text \<open>The class \<^verbatim>\<open>\w\<close>: ASCII letters, digits and the underscore.\<close>

definition is_alpha :: "char \<Rightarrow> bool" where
  "is_alpha c = (let n = (of_char c :: nat) in (65 \<le> n \<and> n \<le> 90) \<or> (97 \<le> n \<and> n \<le> 122))"

definition is_digit :: "char \<Rightarrow> bool" where
  "is_digit c = (let n = (of_char c :: nat) in 48 \<le> n \<and> n \<le> 57)"

definition is_word :: "char \<Rightarrow> bool" where
  "is_word c = (is_alpha c \<or> is_digit c \<or> c = CHR ''_'')"

definition trim :: "string \<Rightarrow> string" where
  "trim s = rev (dropWhile is_space (rev (dropWhile is_space s)))"

fun startsWith :: "string \<Rightarrow> string \<Rightarrow> bool" where
  "startsWith s [] = True"
| "startsWith [] (p # ps) = False"
| "startsWith (c # cs) (p # ps) = (c = p \<and> startsWith cs ps)"

definition endsWith :: "string \<Rightarrow> string \<Rightarrow> bool" where
  "endsWith s p = startsWith (rev s) (rev p)"

text \<open>
  \<^verbatim>\<open>s.indexOf(p)\<close>: the offset of the first occurrence of \<open>p\<close> in \<open>s\<close>, or \<open>-1\<close>.
\<close>

fun indexOf_from :: "string \<Rightarrow> string \<Rightarrow> nat \<Rightarrow> int" where
  "indexOf_from [] p i = (if p = [] then int i else -1)"
| "indexOf_from (c # cs) p i = (if startsWith (c # cs) p then int i else indexOf_from cs p (Suc i))"

definition indexOf :: "string \<Rightarrow> string \<Rightarrow> int" where
  "indexOf s p = indexOf_from s p 0"

definition includes_js :: "string \<Rightarrow> string \<Rightarrow> bool" where
  "includes_js s p = (indexOf s p \<noteq> -1)"

text \<open>
  \<^verbatim>\<open>s.substring(0, pos)\<close>: a negative position is clamped to 0, one past the end to the
  length.
\<close>

definition substring0 :: "string \<Rightarrow> int \<Rightarrow> string" where
  "substring0 s pos = take (nat pos) s"

text \<open>
  \<^verbatim>\<open>s.split(sep)\<close> for a non-empty separator: the pieces between the occurrences of
  \<open>sep\<close>, found from left to right without overlap.
\<close>

function split_acc :: "string \<Rightarrow> string \<Rightarrow> string \<Rightarrow> string list" where
  "split_acc sep cur [] = [rev cur]"
| "split_acc sep cur (c # cs) =
     (if sep \<noteq> [] \<and> startsWith (c # cs) sep
      then rev cur # split_acc sep [] (drop (length sep) (c # cs))
      else split_acc sep (c # cur) cs)"
  by pat_completeness auto
termination
  by (relation "measure (\<lambda>(sep, cur, s). length s)") auto

definition split :: "string \<Rightarrow> string \<Rightarrow> string list" where
  "split s sep = split_acc sep [] s"


text \<open>
  \<^verbatim>\<open>s.replace(pat, repl)\<close> with a string pattern: the first occurrence of \<open>pat\<close> is
  replaced, and the replacement text is expanded as ECMAScript's GetSubstitution does
  when there are no capture groups: \<^verbatim>\<open>$$\<close> is a dollar sign, \<^verbatim>\<open>$&\<close> the matched text,
  \<^verbatim>\<open>$\<close> followed by a backquote the text before the match, \<^verbatim>\<open>$'\<close> the text after it;
  any other \<^verbatim>\<open>$\<close> stands for itself.
\<close>

fun getSubstitution :: "string \<Rightarrow> string \<Rightarrow> string \<Rightarrow> string \<Rightarrow> string" where
  "getSubstitution pre m suf [] = []"
| "getSubstitution pre m suf [c] = [c]"
| "getSubstitution pre m suf (c # d # r) =
     (if c = CHR 0x24 then
        (if d = CHR 0x24 then CHR 0x24 # getSubstitution pre m suf r
         else if d = CHR 0x26 then m @ getSubstitution pre m suf r
         else if d = CHR 0x60 then pre @ getSubstitution pre m suf r
         else if d = CHR 0x27 then suf @ getSubstitution pre m suf r
         else c # getSubstitution pre m suf (d # r))
      else c # getSubstitution pre m suf (d # r))"

definition replace_str :: "string \<Rightarrow> string \<Rightarrow> string \<Rightarrow> string" where
  "replace_str s pat repl =
     (let i = indexOf s pat in
      if i = -1 then s
      else (let pre = take (nat i) s; suf = drop (nat i + length pat) s
            in pre @ getSubstitution pre pat suf repl @ suf))"

text \<open>\<^verbatim>\<open>xs.join(sep)\<close>.\<close>

fun join :: "string list \<Rightarrow> string \<Rightarrow> string" where
  "join [] sep = []"
| "join [x] sep = x"
| "join (x # y # ys) sep = x @ sep @ join (y # ys) sep"

section \<open>Regular expressions\<close>

text \<open>
  The regular expressions of the source are values of the type \<open>rx\<close>, matched by a
  backtracking matcher in continuation-passing style that tries the alternatives in
  the order ECMAScript does: a greedy quantifier takes one more character before it
  gives back, a lazy one the other way round, the alternatives of \<open>|\<close> from left to
  right.  Quantifiers range over character classes only, which is all the source
  uses.  \<open>Cap i r\<close> is the \<open>i\<close>-th capture group, \<open>Eol\<close> the assertion \<^verbatim>\<open>$\<close> under the
  flag \<^verbatim>\<open>m\<close>.
\<close>

datatype rx =
    Lit string
  | Cls "char \<Rightarrow> bool"
  | Plus "char \<Rightarrow> bool"
  | Star "char \<Rightarrow> bool"
  | LazyStar "char \<Rightarrow> bool"
  | Seq rx rx
  | Alt rx rx
  | Opt rx
  | Cap nat rx
  | Eol

type_synonym caps = "nat \<rightharpoonup> string"

fun run :: "rx \<Rightarrow> string \<Rightarrow> nat \<Rightarrow> caps \<Rightarrow> (string \<Rightarrow> nat \<Rightarrow> caps \<Rightarrow> 'a option) \<Rightarrow> 'a option" where
  "run (Lit l) s p c K =
     (if startsWith s l then K (drop (length l) s) (p + length l) c else None)"
| "run (Cls f) s p c K =
     (case s of [] \<Rightarrow> None | x # xs \<Rightarrow> if f x then K xs (Suc p) c else None)"
| "run (Plus f) s p c K =
     (case s of [] \<Rightarrow> None | x # xs \<Rightarrow> if f x then run (Star f) xs (Suc p) c K else None)"
| "run (Star f) s p c K =
     (case s of [] \<Rightarrow> K s p c
      | x # xs \<Rightarrow>
          if f x then (case run (Star f) xs (Suc p) c K of Some r \<Rightarrow> Some r | None \<Rightarrow> K s p c)
          else K s p c)"
| "run (LazyStar f) s p c K =
     (case K s p c of Some r \<Rightarrow> Some r
      | None \<Rightarrow>
          (case s of [] \<Rightarrow> None
           | x # xs \<Rightarrow> if f x then run (LazyStar f) xs (Suc p) c K else None))"
| "run (Seq a b) s p c K = run a s p c (\<lambda>s' p' c'. run b s' p' c' K)"
| "run (Alt a b) s p c K =
     (case run a s p c K of Some r \<Rightarrow> Some r | None \<Rightarrow> run b s p c K)"
| "run (Opt a) s p c K =
     (case run a s p c K of Some r \<Rightarrow> Some r | None \<Rightarrow> K s p c)"
| "run (Cap i a) s p c K = run a s p c (\<lambda>s' p' c'. K s' p' (c'(i \<mapsto> take (p' - p) s)))"
| "run Eol s p c K = (if s = [] \<or> is_lt (hd s) then K s p c else None)"


text \<open>A sequence of regular expressions, written as a list.\<close>

fun seq :: "rx list \<Rightarrow> rx" where
  "seq [] = Lit []"
| "seq [r] = r"
| "seq (r # rs) = Seq r (seq rs)"

text \<open>
  A match: where it starts, where it ends, and the text of the capture groups that
  took part in it (a group that did not is \<^verbatim>\<open>undefined\<close> in JavaScript, \<open>None\<close> here).
\<close>

record rmatch =
  m_index :: nat
  m_end :: nat
  m_groups :: caps

definition m_text :: "string \<Rightarrow> rmatch \<Rightarrow> string" where
  "m_text s m = take (m_end m - m_index m) (drop (m_index m) s)"

text \<open>
  A capture group read as a string.  The source reads the groups that always take
  part in a match, and tests the optional one for truthiness, where \<^verbatim>\<open>undefined\<close> and
  the empty string agree.
\<close>

definition grp :: "rmatch \<Rightarrow> nat \<Rightarrow> string" where
  "grp m i = (case m_groups m i of None \<Rightarrow> [] | Some g \<Rightarrow> g)"

definition accept :: "nat \<Rightarrow> string \<Rightarrow> nat \<Rightarrow> caps \<Rightarrow> rmatch option" where
  "accept start s' e c = Some \<lparr>m_index = start, m_end = e, m_groups = c\<rparr>"

text \<open>The leftmost match in \<open>s\<close>, which starts at offset \<open>p\<close> of the whole text.\<close>

fun search :: "rx \<Rightarrow> string \<Rightarrow> nat \<Rightarrow> rmatch option" where
  "search r [] p = run r [] p Map.empty (accept p)"
| "search r (x # xs) p =
     (case run r (x # xs) p Map.empty (accept p) of
        Some m \<Rightarrow> Some m
      | None \<Rightarrow> search r xs (Suc p))"

text \<open>\<^verbatim>\<open>regex.exec(s)\<close> with \<^verbatim>\<open>regex.lastIndex = lastIndex\<close>, for a regular expression with the flag \<^verbatim>\<open>g\<close>.\<close>

definition exec :: "rx \<Rightarrow> string \<Rightarrow> nat \<Rightarrow> rmatch option" where
  "exec r s lastIndex = (if length s < lastIndex then None else search r (drop lastIndex s) lastIndex)"

text \<open>
  The texts a regular expression can match, whatever order the matcher tries them in
  (\<open>Eol\<close> looks ahead and takes nothing).
\<close>

fun lang :: "rx \<Rightarrow> string set" where
  "lang (Lit l) = {l}"
| "lang (Cls f) = {[c] | c. f c}"
| "lang (Plus f) = {u. u \<noteq> [] \<and> list_all f u}"
| "lang (Star f) = {u. list_all f u}"
| "lang (LazyStar f) = {u. list_all f u}"
| "lang (Seq a b) = {u @ v | u v. u \<in> lang a \<and> v \<in> lang b}"
| "lang (Alt a b) = lang a \<union> lang b"
| "lang (Opt a) = insert [] (lang a)"
| "lang (Cap i a) = lang a"
| "lang Eol = {[]}"

text \<open>The least number of characters a match of a regular expression takes.\<close>

fun minlen :: "rx \<Rightarrow> nat" where
  "minlen (Lit l) = length l"
| "minlen (Cls f) = 1"
| "minlen (Plus f) = 1"
| "minlen (Star f) = 0"
| "minlen (LazyStar f) = 0"
| "minlen (Seq a b) = minlen a + minlen b"
| "minlen (Alt a b) = min (minlen a) (minlen b)"
| "minlen (Opt a) = 0"
| "minlen (Cap i a) = minlen a"
| "minlen Eol = 0"

subsection \<open>A match consumes a prefix of the input\<close>

lemma startsWith_iff: "startsWith s l \<longleftrightarrow> (\<exists>t. s = l @ t)"
  by (induction s l rule: startsWith.induct) auto

lemma lang_minlen: "u \<in> lang r \<Longrightarrow> minlen r \<le> length u"
proof (induction r arbitrary: u)
  case (Plus f)
  then show ?case by (cases u) auto
next
  case (Seq a b)
  then show ?case by (fastforce simp: add_mono)
next
  case (Alt a b)
  then show ?case by (auto simp: min_le_iff_disj)
qed auto

text \<open>The texts the capture group \<open>i\<close> of a regular expression can hold after a match.\<close>

fun caplang :: "rx \<Rightarrow> nat \<Rightarrow> string set" where
  "caplang (Seq a b) i = caplang a i \<union> caplang b i"
| "caplang (Alt a b) i = caplang a i \<union> caplang b i"
| "caplang (Opt a) i = caplang a i"
| "caplang (Cap j a) i = (if i = j then lang a else {}) \<union> caplang a i"
| "caplang r i = {}"

definition capsrel :: "rx \<Rightarrow> caps \<Rightarrow> caps \<Rightarrow> bool" where
  "capsrel r c c' = (\<forall>i. c' i = c i \<or> (\<exists>t \<in> caplang r i. c' i = Some t))"

lemma capsrel_refl: "capsrel r c c"
  by (simp add: capsrel_def)

lemma capsrel_Seq: "capsrel a c c1 \<Longrightarrow> capsrel b c1 c2 \<Longrightarrow> capsrel (Seq a b) c c2"
  unfolding capsrel_def caplang.simps by (metis Un_iff)

lemma capsrel_Alt1: "capsrel a c c' \<Longrightarrow> capsrel (Alt a b) c c'"
  unfolding capsrel_def caplang.simps by blast

lemma capsrel_Alt2: "capsrel b c c' \<Longrightarrow> capsrel (Alt a b) c c'"
  unfolding capsrel_def caplang.simps by blast

lemma capsrel_Opt: "capsrel a c c' \<Longrightarrow> capsrel (Opt a) c c'"
  unfolding capsrel_def caplang.simps .

lemma capsrel_Cap: "capsrel a c c' \<Longrightarrow> u \<in> lang a \<Longrightarrow> capsrel (Cap i a) c (c'(i \<mapsto> u))"
  unfolding capsrel_def caplang.simps by auto

text \<open>
  Soundness of the matcher: a successful run hands to its continuation the rest of
  the input after a text of the expression's language, with capture groups that hold
  what they held before or a text of the group's language.
\<close>

definition reaches ::
  "(string \<Rightarrow> nat \<Rightarrow> caps \<Rightarrow> 'a option) \<Rightarrow> string \<Rightarrow> nat \<Rightarrow> caps \<Rightarrow> rx \<Rightarrow> 'a \<Rightarrow> bool" where
  "reaches K s p c r x =
     (\<exists>u s' c'. s = u @ s' \<and> u \<in> lang r \<and> capsrel r c c' \<and> K s' (p + length u) c' = Some x)"

lemma reachesI:
  "s = u @ s' \<Longrightarrow> u \<in> lang r \<Longrightarrow> capsrel r c c' \<Longrightarrow> K s' (p + length u) c' = Some x
     \<Longrightarrow> reaches K s p c r x"
  unfolding reaches_def by blast

lemma reaches_Cons:
  assumes "reaches K xs (Suc p) c r x"
    and "\<And>u. u \<in> lang r \<Longrightarrow> a # u \<in> lang r'"
    and "\<And>i. caplang r' i = caplang r i"
  shows "reaches K (a # xs) p c r' x"
proof -
  from assms(1) obtain u s' c' where
    *: "xs = u @ s'" "u \<in> lang r" "capsrel r c c'" "K s' (Suc p + length u) c' = Some x"
    unfolding reaches_def by blast
  show ?thesis
    by (rule reachesI[of _ "a # u" s' _ _ c']) (use * assms(2,3) in \<open>auto simp: capsrel_def\<close>)
qed

lemma reaches_here: "K s p c = Some x \<Longrightarrow> [] \<in> lang r \<Longrightarrow> reaches K s p c r x"
  by (rule reachesI[of _ "[]" s _ _ c]) (auto simp: capsrel_refl)

lemma run_reaches:
  "run r s p c K = Some x \<Longrightarrow> reaches K s p c r x"
proof (induction r s p c K arbitrary: x rule: run.induct)
  case (1 l s p c K)
  then obtain t where "s = l @ t" "K t (p + length l) c = Some x"
    by (auto simp: startsWith_iff split: if_splits)
  then show ?case by (intro reachesI[of _ l t _ _ c]) (auto simp: capsrel_refl)
next
  case (2 f s p c K)
  then obtain y ys where s: "s = y # ys" "f y" "K ys (Suc p) c = Some x"
    by (auto split: list.splits if_splits)
  then show ?case by (intro reachesI[of _ "[y]" ys _ _ c]) (auto simp: capsrel_refl)
next
  case (3 f s p c K)
  then obtain y ys where s: "s = y # ys" "f y" "run (Star f) ys (Suc p) c K = Some x"
    by (auto split: list.splits if_splits)
  from 3(1)[OF s(1) s(2) s(3)] have "reaches K ys (Suc p) c (Star f) x" .
  from reaches_Cons[OF this, of y "Plus f"] s show ?case by simp
next
  case (4 f s p c K)
  show ?case
  proof (cases s)
    case Nil
    with 4 show ?thesis by (auto intro: reaches_here)
  next
    case (Cons y ys)
    show ?thesis
    proof (cases "f y")
      case False
      with 4 Cons show ?thesis by (auto intro: reaches_here)
    next
      case True
      show ?thesis
      proof (cases "run (Star f) ys (Suc p) c K")
        case None
        with 4 Cons True show ?thesis by (auto intro: reaches_here)
      next
        case (Some r)
        with 4(2) Cons True have "r = x" by simp
        with 4(1)[OF Cons True] Some have "reaches K ys (Suc p) c (Star f) x" by simp
        from reaches_Cons[OF this, of y "Star f"] Cons True show ?thesis by simp
      qed
    qed
  qed
next
  case (5 f s p c K)
  show ?case
  proof (cases "K s p c")
    case (Some r)
    with 5 show ?thesis by (auto intro: reaches_here)
  next
    case None
    with 5(2) obtain y ys where s: "s = y # ys" "f y" "run (LazyStar f) ys (Suc p) c K = Some x"
      by (auto split: list.splits if_splits)
    from 5(1)[OF None s(1) s(2) s(3)] have "reaches K ys (Suc p) c (LazyStar f) x" .
    from reaches_Cons[OF this, of y "LazyStar f"] s show ?thesis by simp
  qed
next
  case (6 a b s p c K)
  from 6(3) have "run a s p c (\<lambda>s' p' c'. run b s' p' c' K) = Some x" by simp
  from 6(2)[OF this] obtain u s' c' where
    u: "s = u @ s'" "u \<in> lang a" "capsrel a c c'" "run b s' (p + length u) c' K = Some x"
    unfolding reaches_def by blast
  from 6(1)[OF u(4)] obtain v s'' c'' where
    v: "s' = v @ s''" "v \<in> lang b" "capsrel b c' c''" "K s'' (p + length u + length v) c'' = Some x"
    unfolding reaches_def by blast
  show ?case
    by (rule reachesI[of _ "u @ v" s'' _ _ c''])
       (use u v in \<open>auto simp: add.assoc intro: capsrel_Seq\<close>)
next
  case (7 a b s p c K)
  show ?case
  proof (cases "run a s p c K")
    case None
    with 7(3) have "run b s p c K = Some x" by simp
    from 7(2)[OF None this] show ?thesis
      unfolding reaches_def by (auto intro: capsrel_Alt2)
  next
    case (Some r)
    with 7(3) have "run a s p c K = Some x" by simp
    from 7(1)[OF this] show ?thesis
      unfolding reaches_def by (auto intro: capsrel_Alt1)
  qed
next
  case (8 a s p c K)
  show ?case
  proof (cases "run a s p c K")
    case None
    with 8(2) have "K s p c = Some x" by simp
    then show ?thesis by (rule reaches_here) simp
  next
    case (Some r)
    with 8(2) have "run a s p c K = Some x" by simp
    from 8(1)[OF this] show ?thesis
      unfolding reaches_def by (auto intro: capsrel_Opt)
  qed
next
  case (9 i a s p c K)
  from 9(2) have "run a s p c (\<lambda>s' p' c'. K s' p' (c'(i \<mapsto> take (p' - p) s))) = Some x" by simp
  from 9(1)[OF this] obtain u s' c' where
    u: "s = u @ s'" "u \<in> lang a" "capsrel a c c'"
     "K s' (p + length u) (c'(i \<mapsto> take (p + length u - p) s)) = Some x"
    unfolding reaches_def by blast
  from u(1,4) have k: "K s' (p + length u) (c'(i \<mapsto> u)) = Some x" by simp
  have "u \<in> lang (Cap i a)" using u(2) by simp
  moreover have "capsrel (Cap i a) c (c'(i \<mapsto> u))" using u(3) u(2) by (rule capsrel_Cap)
  ultimately show ?case using u(1) k unfolding reaches_def by blast
next
  case (10 s p c K)
  then have "K s p c = Some x" by (simp split: if_splits)
  then show ?case by (rule reaches_here) simp
qed

text \<open>What a match found by \<open>search\<close> and \<open>exec\<close> is: a text of the language, inside the input.\<close>

definition capsOf :: "rx \<Rightarrow> caps \<Rightarrow> bool" where
  "capsOf r c = (\<forall>i. c i = None \<or> (\<exists>t \<in> caplang r i. c i = Some t))"

lemma capsrel_empty: "capsrel r Map.empty c \<Longrightarrow> capsOf r c"
  unfolding capsrel_def capsOf_def by metis

lemma search_sound:
  "search r s p = Some m \<Longrightarrow>
     \<exists>a u b. s = a @ u @ b \<and> u \<in> lang r \<and> m_index m = p + length a
        \<and> m_end m = p + length a + length u \<and> capsOf r (m_groups m)"
proof (induction r s p rule: search.induct)
  case (1 r p)
  from run_reaches[OF 1[unfolded search.simps]] show ?case
    unfolding reaches_def accept_def by (auto dest: capsrel_empty)
next
  case (2 r x xs p)
  show ?case
  proof (cases "run r (x # xs) p Map.empty (accept p)")
    case None
    with 2(2) have "search r xs (Suc p) = Some m" by simp
    from 2(1)[OF None this] obtain a u b where
      "xs = a @ u @ b" "u \<in> lang r" "m_index m = Suc p + length a"
      "m_end m = Suc p + length a + length u" "capsOf r (m_groups m)"
      by blast
    then show ?thesis by (intro exI[of _ "x # a"] exI[of _ u] exI[of _ b]) simp
  next
    case (Some m')
    with 2(2) have "run r (x # xs) p Map.empty (accept p) = Some m" by simp
    from run_reaches[OF this] obtain u s' where "x # xs = u @ s'" "u \<in> lang r"
      "m_index m = p" "m_end m = p + length u" "capsOf r (m_groups m)"
      unfolding reaches_def accept_def by (auto dest: capsrel_empty)
    then show ?thesis by (intro exI[of _ "[]"] exI[of _ u] exI[of _ s']) simp
  qed
qed

lemma exec_sound:
  assumes "exec r s i = Some m"
  shows "\<exists>a u b. s = a @ u @ b \<and> u \<in> lang r \<and> i \<le> length a \<and> m_index m = length a
           \<and> m_end m = length a + length u \<and> m_text s m = u \<and> capsOf r (m_groups m)"
proof -
  from assms have i: "i \<le> length s" and "search r (drop i s) i = Some m"
    unfolding exec_def by (auto split: if_splits)
  from search_sound[OF this(2)] obtain a u b where
    *: "drop i s = a @ u @ b" "u \<in> lang r" "m_index m = i + length a"
       "m_end m = i + length a + length u" "capsOf r (m_groups m)"
    by blast
  define a' where "a' = take i s @ a"
  have s: "s = a' @ u @ b" using *(1) unfolding a'_def by (metis append.assoc append_take_drop_id)
  have la: "length a' = i + length a" using i unfolding a'_def by simp
  have "m_text s m = u" unfolding m_text_def using *(3,4) la s by simp
  with s la * have "s = a' @ u @ b \<and> u \<in> lang r \<and> i \<le> length a' \<and> m_index m = length a'
           \<and> m_end m = length a' + length u \<and> m_text s m = u \<and> capsOf r (m_groups m)" by simp
  then show ?thesis by blast
qed

lemma exec_bounds:
  assumes "exec r s i = Some m"
  shows "i \<le> m_index m \<and> m_index m + minlen r \<le> m_end m \<and> m_end m \<le> length s"
proof -
  from exec_sound[OF assms] obtain a u b where
    *: "s = a @ u @ b" "u \<in> lang r" "i \<le> length a" "m_index m = length a" "m_end m = length a + length u"
    by blast
  from *(1) have "length s = length a + length u + length b" by simp
  with * lang_minlen[OF *(2)] show ?thesis by simp
qed

text \<open>A capture group read with \<open>grp\<close> is empty or a text of the group's language.\<close>

lemma exec_grp:
  assumes "exec r s i = Some m"
  shows "grp m k = [] \<or> grp m k \<in> caplang r k"
proof -
  from exec_sound[OF assms] have "capsOf r (m_groups m)" by blast
  then show ?thesis unfolding capsOf_def grp_def by (metis option.case_eq_if option.sel)
qed

subsection \<open>Global matching and replacing\<close>

text \<open>
  \<^verbatim>\<open>s.match(regex)\<close> and \<^verbatim>\<open>s.replace(regex, f)\<close> for a regular expression with the flag
  \<^verbatim>\<open>g\<close>: the matches from left to right, each search starting where the match before
  ended (one character further after an empty match).
\<close>

function match_all :: "rx \<Rightarrow> string \<Rightarrow> nat \<Rightarrow> rmatch list" where
  "match_all r s i =
     (case exec r s i of
        None \<Rightarrow> []
      | Some m \<Rightarrow> m # match_all r s (if m_end m = m_index m then Suc (m_end m) else m_end m))"
  by pat_completeness auto
termination
  by (relation "measure (\<lambda>(r, s, i). Suc (length s) - i)") (auto dest!: exec_bounds)

declare match_all.simps [simp del]

text \<open>
  The text rebuilt by \<^verbatim>\<open>replace\<close>: what stands between the matches is kept, the \<open>k\<close>-th
  match (counted from \<open>k\<close>) is replaced by \<open>f k m\<close>.
\<close>

fun rebuild :: "string \<Rightarrow> nat \<Rightarrow> rmatch list \<Rightarrow> (nat \<Rightarrow> rmatch \<Rightarrow> string) \<Rightarrow> nat \<Rightarrow> string" where
  "rebuild s pos [] f k = drop pos s"
| "rebuild s pos (m # ms) f k =
     take (m_index m - pos) (drop pos s) @ f k m @ rebuild s (m_end m) ms f (Suc k)"

definition replace_all :: "rx \<Rightarrow> string \<Rightarrow> (nat \<Rightarrow> rmatch \<Rightarrow> string) \<Rightarrow> string" where
  "replace_all r s f = rebuild s 0 (match_all r s 0) f 0"

section \<open>The regular expressions of the template checker\<close>

text \<open>\<^verbatim>\<open>/<render>([\s\S]*?)<\/render>/\<close>\<close>

definition renderRegex :: rx where
  "renderRegex = seq [Lit ''<render>'', Cap 1 (LazyStar (\<lambda>c. True)), Lit ''</render>'']"

text \<open>\<^verbatim>\<open>/@(client|server|public|sset|readable)\s+(const|let|var)?\s+(\w+)(?:\s*=\s*([^;]+))?/g\<close>\<close>

definition varRegex :: rx where
  "varRegex = seq
     [Lit ''@'',
      Cap 1 (Alt (Lit ''client'') (Alt (Lit ''server'') (Alt (Lit ''public'')
               (Alt (Lit ''sset'') (Lit ''readable''))))),
      Plus is_space,
      Opt (Cap 2 (Alt (Lit ''const'') (Alt (Lit ''let'') (Lit ''var'')))),
      Plus is_space,
      Cap 3 (Plus is_word),
      Opt (seq [Star is_space, Lit ''='', Star is_space, Cap 4 (Plus (\<lambda>c. c \<noteq> CHR '';''))])]"

text \<open>\<^verbatim>\<open>/\(([^?]+)\s*\?\s*([^:]+)\s*:\s*([^)]+)\)/g\<close>\<close>

definition conditionalRegex :: rx where
  "conditionalRegex = seq
     [Lit ''('', Cap 1 (Plus (\<lambda>c. c \<noteq> CHR ''?'')), Star is_space, Lit ''?'', Star is_space,
      Cap 2 (Plus (\<lambda>c. c \<noteq> CHR '':'')), Star is_space, Lit '':'', Star is_space,
      Cap 3 (Plus (\<lambda>c. c \<noteq> CHR '')'')), Lit '')'']"

text \<open>\<^verbatim>\<open>/on:[^=]+=\{[^}]+\}/g\<close>\<close>

definition tagAttributeRegex :: rx where
  "tagAttributeRegex = seq
     [Lit ''on:'', Plus (\<lambda>c. c \<noteq> CHR ''=''), Lit ''={'', Plus (\<lambda>c. c \<noteq> CHR ''}''), Lit ''}'']"

text \<open>\<^verbatim>\<open>/{([^}]+)}/g\<close>\<close>

definition templateRegex :: rx where
  "templateRegex = seq [Lit ''{'', Cap 1 (Plus (\<lambda>c. c \<noteq> CHR ''}'')), Lit ''}'']"

text \<open>\<^verbatim>\<open>/\s+on:[^=]+=\{[^}]+\}/g\<close>\<close>

definition onAttributeRegex :: rx where
  "onAttributeRegex = seq
     [Plus is_space, Lit ''on:'', Plus (\<lambda>c. c \<noteq> CHR ''=''), Lit ''={'',
      Plus (\<lambda>c. c \<noteq> CHR ''}''), Lit ''}'']"

text \<open>
  \<^verbatim>\<open>/\s+on:[a-z0-9_-]+(=|\s*=\s*)([^>\s]*|"[^"]*"|'[^']*')/gi\<close>; under the flag \<^verbatim>\<open>i\<close> the
  letters match in either case.
\<close>

definition missedAttributeRegex :: rx where
  "missedAttributeRegex = seq
     [Plus is_space,
      Cls (\<lambda>c. c = CHR ''o'' \<or> c = CHR ''O''), Cls (\<lambda>c. c = CHR ''n'' \<or> c = CHR ''N''), Lit '':'',
      Plus (\<lambda>c. is_alpha c \<or> is_digit c \<or> c = CHR ''_'' \<or> c = CHR ''-''),
      Cap 1 (Alt (Lit ''='') (seq [Star is_space, Lit ''='', Star is_space])),
      Cap 2 (Alt (Star (\<lambda>c. c \<noteq> CHR ''>'' \<and> \<not> is_space c))
              (Alt (seq [Lit [CHR 0x22], Star (\<lambda>c. c \<noteq> CHR 0x22), Lit [CHR 0x22]])
                   (seq [Lit [CHR 0x27], Star (\<lambda>c. c \<noteq> CHR 0x27), Lit [CHR 0x27]])))]"

text \<open>\<^verbatim>\<open>/<[^>]+>|[^<>]+/g\<close>\<close>

definition tokenRegex :: rx where
  "tokenRegex = Alt (seq [Lit ''<'', Plus (\<lambda>c. c \<noteq> CHR ''>''), Lit ''>''])
                    (Plus (\<lambda>c. c \<noteq> CHR ''<'' \<and> c \<noteq> CHR ''>''))"

text \<open>\<^verbatim>\<open>/\n\s*\n+/g\<close>\<close>

definition blankLinesRegex :: rx where
  "blankLinesRegex = seq [Lit [nl], Star is_space, Plus (\<lambda>c. c = nl)]"

text \<open>\<^verbatim>\<open>/\s+$/gm\<close>\<close>

definition trailingRegex :: rx where
  "trailingRegex = seq [Plus is_space, Eol]"

section \<open>Values, variables and the compile state\<close>

text \<open>
  The values an expression can evaluate to, as far as the checker looks at them: it
  tests \<^verbatim>\<open>typeof v === "boolean"\<close>, \<^verbatim>\<open>v !== undefined\<close> and truthiness, and it turns a
  value into text.  \<open>JNum\<close> is an integer-valued number, \<open>JObject t\<close> any other value
  (an object, an array, a function, a number with a fraction), which is truthy and
  whose text is \<open>t\<close>.
\<close>

datatype jsval = JUndefined | JNull | JBool bool | JNum int | JNaN | JStr string | JObject string

fun truthy :: "jsval \<Rightarrow> bool" where
  "truthy JUndefined = False"
| "truthy JNull = False"
| "truthy (JBool b) = b"
| "truthy (JNum n) = (n \<noteq> 0)"
| "truthy JNaN = False"
| "truthy (JStr t) = (t \<noteq> [])"
| "truthy (JObject t) = True"

function show_nat :: "nat \<Rightarrow> string" where
  "show_nat n = (if n < 10 then [char_of (48 + n)] else show_nat (n div 10) @ [char_of (48 + n mod 10)])"
  by pat_completeness auto
termination
  by (relation "measure id") auto

declare show_nat.simps [simp del]

definition show_int :: "int \<Rightarrow> string" where
  "show_int i = (if i < 0 then CHR ''-'' # show_nat (nat (- i)) else show_nat (nat i))"

fun toString :: "jsval \<Rightarrow> string" where
  "toString JUndefined = ''undefined''"
| "toString JNull = ''null''"
| "toString (JBool b) = (if b then ''true'' else ''false'')"
| "toString (JNum n) = show_int n"
| "toString JNaN = ''NaN''"
| "toString (JStr t) = t"
| "toString (JObject t) = t"

text \<open>
  \<^verbatim>\<open>interface Variable\<close>.  An absent \<^verbatim>\<open>value\<close> reads as \<^verbatim>\<open>undefined\<close>.
\<close>

record Variable =
  vtype :: string
  vvalue :: jsval
  initialized :: bool

record Diagnostic =
  lineNumber :: nat
  message :: string

text \<open>\<^verbatim>\<open>interface CompileState\<close>\<close>

record CompileState =
  variables :: "string \<rightharpoonup> Variable"
  errors :: "Diagnostic list"

text \<open>
  JavaScript's \<^verbatim>\<open>eval\<close> is the language's own: the functions below take it as the
  parameter \<open>ev\<close>, which gives the value of a text, or \<open>None\<close> when evaluating it
  throws.  The evaluated text is taken to have no effect on the checker's state and
  not to read the local variables of the function that calls \<^verbatim>\<open>eval\<close>.
\<close>

type_synonym evaluator = "string \<Rightarrow> jsval option"

datatype jserror = Error string | RangeError string

section \<open>The expression evaluator\<close>

definition evaluateExpression :: "evaluator \<Rightarrow> CompileState \<Rightarrow> string \<Rightarrow> jserror + jsval" where
  "evaluateExpression ev state expr =
     (case ev expr of
        Some v \<Rightarrow> Inr v
      | None \<Rightarrow>
          (case variables state (trim expr) of
             Some variable \<Rightarrow>
               if initialized variable \<and> vvalue variable \<noteq> JUndefined then Inr (vvalue variable)
               else Inl (Error (''Cannot evaluate expression: '' @ expr))
           | None \<Rightarrow> Inl (Error (''Cannot evaluate expression: '' @ expr))))"

definition isResolvableAtCompileTime :: "evaluator \<Rightarrow> CompileState \<Rightarrow> string \<Rightarrow> bool" where
  "isResolvableAtCompileTime ev state expr =
     (case evaluateExpression ev state expr of
        Inr v \<Rightarrow> v \<noteq> JUndefined
      | Inl e \<Rightarrow> False)"

section \<open>The variable extractor\<close>

text \<open>The entry \<^verbatim>\<open>parseVariables\<close> stores for one match of \<open>varRegex\<close>.\<close>

definition varData :: "evaluator \<Rightarrow> rmatch \<Rightarrow> Variable" where
  "varData ev m =
     (let varType = grp m 1; val = grp m 4;
          uninitialized = \<lparr>vtype = varType, vvalue = JUndefined, initialized = False\<rparr>
      in if val \<noteq> [] then
           (case ev val of
              Some evaluatedValue \<Rightarrow> \<lparr>vtype = varType, vvalue = evaluatedValue, initialized = True\<rparr>
            | None \<Rightarrow> uninitialized)
         else uninitialized)"

lemma minlen_varRegex: "0 < minlen varRegex"
  by (simp add: varRegex_def)

function parseVariables_loop :: "evaluator \<Rightarrow> string \<Rightarrow> nat \<Rightarrow> CompileState \<Rightarrow> CompileState" where
  "parseVariables_loop ev code lastIndex state =
     (case exec varRegex code lastIndex of
        None \<Rightarrow> state
      | Some m \<Rightarrow>
          parseVariables_loop ev code (m_end m)
            (state\<lparr>variables := (variables state)(grp m 3 \<mapsto> varData ev m)\<rparr>))"
  by pat_completeness auto
termination
  by (relation "measure (\<lambda>(ev, code, i, st). Suc (length code) - i)")
     (use minlen_varRegex in \<open>auto dest!: exec_bounds\<close>)

declare parseVariables_loop.simps [simp del]

definition parseVariables :: "evaluator \<Rightarrow> string \<Rightarrow> CompileState \<Rightarrow> CompileState" where
  "parseVariables ev code state = parseVariables_loop ev code 0 state"


section \<open>The template expression validator\<close>

definition getLineNumber :: "string \<Rightarrow> int \<Rightarrow> nat" where
  "getLineNumber text position = length (split (substring0 text position) [nl])"

text \<open>
  The masked copy of the content: the \<open>k\<close>-th \<^verbatim>\<open>on:\<close> attribute is replaced by
  \<^verbatim>\<open>__PLACEHOLDER_k__\<close>.
\<close>

definition maskAttributes :: "string \<Rightarrow> string" where
  "maskAttributes content =
     replace_all tagAttributeRegex content (\<lambda>k m. ''__PLACEHOLDER_'' @ show_nat k @ ''__'')"

text \<open>The position the validator takes for a matched placeholder, and its line.\<close>

definition originalPosition :: "string \<Rightarrow> string \<Rightarrow> string \<Rightarrow> string \<Rightarrow> int" where
  "originalPosition fullCode content placeholderContent fullMatch =
     (if indexOf fullCode fullMatch = -1
      then indexOf fullCode content + indexOf placeholderContent fullMatch
      else indexOf fullCode fullMatch)"

text \<open>
  The body of the validator's loop for one match: the Diagnostics it pushes (none or
  one).
\<close>

definition fallbackMessage :: "string \<Rightarrow> string" where
  "fallbackMessage fallbackExpr =
     ''Fallback expression '' @ [CHR 0x22] @ fallbackExpr @ [CHR 0x22] @ '' cannot be resolved at compile time''"

definition templateMessage :: "string \<Rightarrow> string" where
  "templateMessage expr =
     ''Template expression '' @ [CHR 0x22] @ expr @ [CHR 0x22] @ '' cannot be resolved at compile time''"

definition checkMatch :: "evaluator \<Rightarrow> CompileState \<Rightarrow> string \<Rightarrow> string \<Rightarrow> string \<Rightarrow> rmatch \<Rightarrow> Diagnostic list" where
  "checkMatch ev state fullCode content placeholderContent m =
     (let fullMatch = m_text placeholderContent m; expr = grp m 1;
          line = getLineNumber fullCode (originalPosition fullCode content placeholderContent fullMatch)
      in if includes_js expr '' until '' then
           (let fallbackExpr = (case map trim (split expr '' until '') of [] \<Rightarrow> [] | f # rest \<Rightarrow> f)
            in if \<not> isResolvableAtCompileTime ev state fallbackExpr
               then [\<lparr>lineNumber = line, message = fallbackMessage fallbackExpr\<rparr>]
               else [])
         else if \<not> isResolvableAtCompileTime ev state expr
           then [\<lparr>lineNumber = line, message = templateMessage expr\<rparr>]
           else [])"

lemma minlen_templateRegex: "0 < minlen templateRegex"
  by (simp add: templateRegex_def)

function checkTemplateExpressions_loop ::
  "evaluator \<Rightarrow> string \<Rightarrow> string \<Rightarrow> string \<Rightarrow> nat \<Rightarrow> CompileState \<Rightarrow> CompileState" where
  "checkTemplateExpressions_loop ev content placeholderContent fullCode lastIndex state =
     (case exec templateRegex placeholderContent lastIndex of
        None \<Rightarrow> state
      | Some m \<Rightarrow>
          checkTemplateExpressions_loop ev content placeholderContent fullCode (m_end m)
            (state\<lparr>errors := errors state @ checkMatch ev state fullCode content placeholderContent m\<rparr>))"
  by pat_completeness auto
termination
  by (relation "measure (\<lambda>(ev, content, pc, code, i, st). Suc (length pc) - i)")
     (use minlen_templateRegex in \<open>auto dest!: exec_bounds\<close>)

declare checkTemplateExpressions_loop.simps [simp del]

definition checkTemplateExpressions :: "evaluator \<Rightarrow> string \<Rightarrow> CompileState \<Rightarrow> string \<Rightarrow> CompileState" where
  "checkTemplateExpressions ev content state fullCode =
     checkTemplateExpressions_loop ev content (maskAttributes content) fullCode 0 state"

section \<open>The conditional partial evaluator\<close>

text \<open>
  The loop of \<^verbatim>\<open>evaluateConditionals\<close> starts again from the beginning each time it
  folds a conditional, on a text that the replacement can make longer, so it need not
  end.  It is given fuel, one unit for every call and every iteration; \<open>None\<close> stands
  for a run that has not returned with the fuel it was given.  The line number that
  \<^verbatim>\<open>evaluateConditionals\<close> computes is never read and is left out.
\<close>

fun checkRenderContent ::
    "nat \<Rightarrow> evaluator \<Rightarrow> string \<Rightarrow> CompileState \<Rightarrow> string \<Rightarrow> CompileState option"
  and evaluateConditionals_loop ::
    "nat \<Rightarrow> evaluator \<Rightarrow> string \<Rightarrow> nat \<Rightarrow> CompileState \<Rightarrow> string \<Rightarrow> (string \<times> CompileState) option"
where
  "checkRenderContent 0 ev content state fullCode = None"
| "checkRenderContent (Suc n) ev content state fullCode =
     (case evaluateConditionals_loop n ev content 0 state fullCode of
        None \<Rightarrow> None
      | Some (processedContent, state') \<Rightarrow>
          Some (checkTemplateExpressions ev processedContent state' fullCode))"
| "evaluateConditionals_loop 0 ev result lastIndex state fullCode = None"
| "evaluateConditionals_loop (Suc n) ev result lastIndex state fullCode =
     (case exec conditionalRegex result lastIndex of
        None \<Rightarrow> Some (result, state)
      | Some m \<Rightarrow>
          (let fullMatch = m_text result m; condition = grp m 1;
               trueBranch = grp m 2; falseBranch = grp m 3
           in case evaluateExpression ev state (trim condition) of
                Inr (JBool conditionValue) \<Rightarrow>
                  evaluateConditionals_loop n ev
                    (replace_str result fullMatch (if conditionValue then trueBranch else falseBranch))
                    0 state fullCode
              | _ \<Rightarrow>
                  (case checkRenderContent n ev trueBranch state fullCode of
                     None \<Rightarrow> None
                   | Some state1 \<Rightarrow>
                       (case checkRenderContent n ev falseBranch state1 fullCode of
                          None \<Rightarrow> None
                        | Some state2 \<Rightarrow>
                            evaluateConditionals_loop n ev result (m_end m) state2 fullCode))))"

definition evaluateConditionals ::
  "nat \<Rightarrow> evaluator \<Rightarrow> string \<Rightarrow> CompileState \<Rightarrow> string \<Rightarrow> (string \<times> CompileState) option" where
  "evaluateConditionals n ev content state fullCode = evaluateConditionals_loop n ev content 0 state fullCode"


section \<open>The HTML generator\<close>

text \<open>\<^verbatim>\<open>" ".repeat(count)\<close> throws a RangeError for a negative count.\<close>

definition indent :: "int \<Rightarrow> jserror + string" where
  "indent count =
     (if count < 0 then Inl (RangeError ''Invalid count value'')
      else Inr (replicate (nat count) CHR '' ''))"

text \<open>
  The loop of \<^verbatim>\<open>formatHtml\<close> over the tokens; an opening tag takes the text token that
  follows it (the source's \<^verbatim>\<open>i++\<close>).
\<close>

fun formatTokens :: "string list \<Rightarrow> int \<Rightarrow> string \<Rightarrow> jserror + string" where
  "formatTokens [] indentLevel formattedHtml = Inr formattedHtml"
| "formatTokens (token # tokens) indentLevel formattedHtml =
     (if startsWith token ''</'' then
        (case indent ((indentLevel - 1) * 2) of
           Inl e \<Rightarrow> Inl e
         | Inr sp \<Rightarrow> formatTokens tokens (indentLevel - 1) (formattedHtml @ sp @ token @ [nl]))
      else if startsWith token ''<'' then
        (case indent (indentLevel * 2) of
           Inl e \<Rightarrow> Inl e
         | Inr sp \<Rightarrow>
            (let formattedHtml1 = formattedHtml @ sp @ token @ [nl] in
             if \<not> endsWith token ''/>'' \<and> \<not> startsWith token ''<!'' \<and> \<not> startsWith token ''<?'' then
               (case tokens of
                  [] \<Rightarrow> formatTokens tokens (indentLevel + 1) formattedHtml1
                | next_token # tokens' \<Rightarrow>
                    if \<not> startsWith next_token ''<'' then
                      (let content = trim next_token in
                       if content \<noteq> [] then
                         (case indent ((indentLevel + 1) * 2) of
                            Inl e \<Rightarrow> Inl e
                          | Inr sp1 \<Rightarrow>
                              formatTokens tokens' (indentLevel + 1) (formattedHtml1 @ sp1 @ content @ [nl]))
                       else formatTokens tokens' (indentLevel + 1) formattedHtml1)
                    else formatTokens tokens (indentLevel + 1) formattedHtml1)
             else formatTokens tokens indentLevel formattedHtml1))
      else
        (let content = trim token in
         if content \<noteq> [] then
           (case indent (indentLevel * 2) of
              Inl e \<Rightarrow> Inl e
            | Inr sp \<Rightarrow> formatTokens tokens indentLevel (formattedHtml @ sp @ content @ [nl]))
         else formatTokens tokens indentLevel formattedHtml))"

definition tokenize :: "string \<Rightarrow> string list" where
  "tokenize html = map (m_text html) (match_all tokenRegex html 0)"

definition cleanup :: "string \<Rightarrow> string" where
  "cleanup formattedHtml =
     replace_all trailingRegex (replace_all blankLinesRegex formattedHtml (\<lambda>k m. [nl])) (\<lambda>k m. [])"

definition formatHtml :: "string \<Rightarrow> jserror + string" where
  "formatHtml html =
     (case formatTokens (tokenize html) 0 [] of
        Inl e \<Rightarrow> Inl e
      | Inr formattedHtml \<Rightarrow> Inr (cleanup formattedHtml))"

text \<open>The function \<^verbatim>\<open>generateHtml\<close> passes to \<^verbatim>\<open>replace\<close> for a ternary conditional.\<close>

definition conditionalReplacer :: "evaluator \<Rightarrow> CompileState \<Rightarrow> string \<Rightarrow> string \<Rightarrow> string \<Rightarrow> string" where
  "conditionalReplacer ev state condition trueBranch falseBranch =
     (case evaluateExpression ev state (trim condition) of
        Inr conditionValue \<Rightarrow> if truthy conditionValue then trueBranch else falseBranch
      | Inl e \<Rightarrow> trueBranch)"

text \<open>
  \<^verbatim>\<open>evaluateExpression(e, state) || ""\<close> inside \<^verbatim>\<open>try\<close>, as the text \<^verbatim>\<open>replace\<close> puts in.
\<close>

definition valueOrEmpty :: "evaluator \<Rightarrow> CompileState \<Rightarrow> string \<Rightarrow> string" where
  "valueOrEmpty ev state e =
     (case evaluateExpression ev state e of
        Inr v \<Rightarrow> if truthy v then toString v else []
      | Inl err \<Rightarrow> [])"

text \<open>The function \<^verbatim>\<open>generateHtml\<close> passes to \<^verbatim>\<open>replace\<close> for a placeholder.\<close>

definition templateReplacer :: "evaluator \<Rightarrow> CompileState \<Rightarrow> string \<Rightarrow> string" where
  "templateReplacer ev state expr =
     (if includes_js expr '' until '' then
        (let parts = map trim (split expr '' until '');
             fallbackExpr = (case parts of [] \<Rightarrow> [] | f # rest \<Rightarrow> f);
             varName = (case parts of f # v # rest \<Rightarrow> v | _ \<Rightarrow> [])
         in case variables state (trim varName) of
              Some variable \<Rightarrow>
                if initialized variable \<and> vvalue variable \<noteq> JUndefined then toString (vvalue variable)
                else valueOrEmpty ev state fallbackExpr
            | None \<Rightarrow> valueOrEmpty ev state fallbackExpr)
      else valueOrEmpty ev state expr)"

definition generateHtml :: "evaluator \<Rightarrow> string \<Rightarrow> CompileState \<Rightarrow> jserror + string" where
  "generateHtml ev renderContent state =
     (let html0 = replace_all onAttributeRegex renderContent (\<lambda>k m. []);
          html1 = replace_all conditionalRegex html0
                    (\<lambda>k m. conditionalReplacer ev state (grp m 1) (grp m 2) (grp m 3));
          html2 = replace_all templateRegex html1 (\<lambda>k m. templateReplacer ev state (grp m 1));
          html3 = replace_all missedAttributeRegex html2 (\<lambda>k m. [])
      in formatHtml (''<div>'' @ html3 @ ''</div>''))"

section \<open>The entry point\<close>

text \<open>
  \<^verbatim>\<open>checkTemplates\<close> returns the code or throws, and writes at most one file; the files
  written are returned beside its result.  A written file is named by the two
  arguments of \<^verbatim>\<open>path.join\<close>.
\<close>

record FileWrite =
  directory :: string
  fileName :: string
  contents :: string

definition errorLine :: "Diagnostic \<Rightarrow> string" where
  "errorLine err = ''Line '' @ show_nat (lineNumber err) @ '': '' @ message err"

definition failure :: "Diagnostic list \<Rightarrow> jserror" where
  "failure errs = Error (''Template checking failed:'' @ [nl] @ join (map errorLine errs) [nl])"

definition initialState :: CompileState where
  "initialState = \<lparr>variables = Map.empty, errors = []\<rparr>"

definition checkTemplates ::
  "nat \<Rightarrow> evaluator \<Rightarrow> string \<Rightarrow> string \<Rightarrow> ((jserror + string) \<times> FileWrite list) option" where
  "checkTemplates fuel ev code filename =
     (let state = parseVariables ev code initialState in
      case exec renderRegex code 0 of
        None \<Rightarrow> Some (Inr code, [])
      | Some renderMatch \<Rightarrow>
          (let renderContent = grp renderMatch 1 in
           case checkRenderContent fuel ev renderContent state code of
             None \<Rightarrow> None
           | Some state' \<Rightarrow>
               if errors state' \<noteq> [] then Some (Inl (failure (errors state')), [])
               else
                 (case generateHtml ev renderContent state' of
                    Inl e \<Rightarrow> Some (Inl e, [])
                  | Inr html \<Rightarrow>
                      Some (Inr code,
                        [\<lparr>directory = ''./out'', fileName = replace_str filename ''.remi'' ''.html'',
                          contents = html\<rparr>]))))"

section \<open>A literal evaluator\<close>

text \<open>
  What \<^verbatim>\<open>eval\<close> does on the texts the examples below use: white space alone is
  \<^verbatim>\<open>undefined\<close>; the literals \<^verbatim>\<open>true\<close>, \<^verbatim>\<open>false\<close>, \<^verbatim>\<open>null\<close>, the global names \<^verbatim>\<open>undefined\<close>
  and \<^verbatim>\<open>NaN\<close>, a decimal integer without a leading zero and a quoted string without
  escapes evaluate to their values; any other text is taken to throw, as a name that
  nothing declares does.
\<close>

fun digits_value :: "string \<Rightarrow> nat \<Rightarrow> nat" where
  "digits_value [] acc = acc"
| "digits_value (c # cs) acc = digits_value cs (10 * acc + (of_char c - 48))"

definition is_plain :: "char \<Rightarrow> char \<Rightarrow> bool" where
  "is_plain q c = (c \<noteq> q \<and> c \<noteq> CHR 0x5C \<and> \<not> is_lt c)"

definition lit_eval :: evaluator where
  "lit_eval text =
     (let t = trim text in
      if t = [] then Some JUndefined
      else if t = ''true'' then Some (JBool True)
      else if t = ''false'' then Some (JBool False)
      else if t = ''null'' then Some JNull
      else if t = ''undefined'' then Some JUndefined
      else if t = ''NaN'' then Some JNaN
      else if list_all is_digit t \<and> (hd t \<noteq> CHR ''0'' \<or> length t = 1) then Some (JNum (int (digits_value t 0)))
      else if 2 \<le> length t \<and> (hd t = CHR 0x22 \<or> hd t = CHR 0x27) \<and> last t = hd t
              \<and> list_all (is_plain (hd t)) (butlast (tl t))
        then Some (JStr (butlast (tl t)))
      else None)"


section \<open>Sources without a render block\<close>

text \<open>A source has a render block when \<^verbatim>\<open><render>\<close> is followed, somewhere, by \<^verbatim>\<open></render>\<close>.\<close>

definition hasRenderBlock :: "string \<Rightarrow> bool" where
  "hasRenderBlock code = (\<exists>a b c. code = a @ ''<render>'' @ b @ ''</render>'' @ c)"

lemma lang_renderRegex: "lang renderRegex = {''<render>'' @ b @ ''</render>'' | b. True}"
  by (auto simp: renderRegex_def list_all_iff)

lemma exec_renderRegex_sound:
  assumes "exec renderRegex code i = Some m"
  shows "hasRenderBlock code"
proof -
  from exec_sound[OF assms] obtain a u c where "code = a @ u @ c" "u \<in> lang renderRegex" by blast
  then obtain b where "code = a @ (''<render>'' @ b @ ''</render>'') @ c"
    unfolding lang_renderRegex by blast
  then have "code = a @ ''<render>'' @ b @ ''</render>'' @ c" by simp
  then show ?thesis unfolding hasRenderBlock_def by blast
qed

lemma run_LazyStar_any:
  "(\<And>p c. K t p c \<noteq> None) \<Longrightarrow> run (LazyStar (\<lambda>c. True)) (b @ t) p c K \<noteq> None"
proof (induction b arbitrary: p)
  case Nil
  from Nil[of p c] show ?case by (auto split: option.splits)
next
  case (Cons x b)
  from Cons.IH[OF Cons.prems, of "Suc p"] show ?case by (auto split: option.splits)
qed

lemma run_renderRegex:
  "run renderRegex (''<render>'' @ b @ ''</render>'' @ c) p Map.empty (accept p) \<noteq> None"
proof -
  have "run (Seq (Cap 1 (LazyStar (\<lambda>c. True))) (Lit ''</render>'')) (b @ ''</render>'' @ c) q
          Map.empty (accept p) \<noteq> None" for q
    by (simp add: accept_def run_LazyStar_any del: run.simps(5))
  then show ?thesis by (simp add: renderRegex_def del: run.simps(5) run.simps(9))
qed

lemma search_renderRegex: "search renderRegex (a @ ''<render>'' @ b @ ''</render>'' @ c) p \<noteq> None"
proof (induction a arbitrary: p)
  case Nil
  from run_renderRegex[of b c p] show ?case by (auto split: option.splits)
next
  case (Cons x a)
  then show ?case by (auto split: option.splits)
qed

text \<open>The test \<^verbatim>\<open>code.match(/<render>([\s\S]*?)<\/render>/)\<close> finds a match exactly in the sources with a render block.\<close>

lemma exec_renderRegex_iff: "exec renderRegex code 0 \<noteq> None \<longleftrightarrow> hasRenderBlock code"
  using exec_renderRegex_sound[of code 0] search_renderRegex
  by (auto simp: hasRenderBlock_def exec_def)

lemma parseVariables_loop_errors: "errors (parseVariables_loop ev code i st) = errors st"
  by (induction ev code i st rule: parseVariables_loop.induct)
     (subst parseVariables_loop.simps, simp split: option.splits)

text \<open>
  Claim C8.  For a source text without a \<^verbatim>\<open><render>...</render>\<close> block, \<^verbatim>\<open>checkTemplates\<close>
  returns the text it was given, whatever the fuel, the evaluator and the file name;
  it writes no file, and the compile state it has built holds no Diagnostic.
\<close>

theorem checkTemplates_without_render_block:
  assumes "\<not> hasRenderBlock code"
  shows "checkTemplates fuel ev code filename = Some (Inr code, [])
         \<and> errors (parseVariables ev code initialState) = []"
  using assms exec_renderRegex_iff[of code]
  by (simp add: checkTemplates_def parseVariables_def parseVariables_loop_errors initialState_def)

theorem checkTemplates_without_render_block_witness:
  "\<not> hasRenderBlock ''@client let x = 5; <p>{x}</p>''
   \<and> checkTemplates 0 lit_eval ''@client let x = 5; <p>{x}</p>'' ''a.remi''
       = Some (Inr ''@client let x = 5; <p>{x}</p>'', [])
   \<and> errors (parseVariables lit_eval ''@client let x = 5; <p>{x}</p>'' initialState) = []"
proof -
  have "exec renderRegex ''@client let x = 5; <p>{x}</p>'' 0 = None" by code_simp
  then have h: "\<not> hasRenderBlock ''@client let x = 5; <p>{x}</p>''"
    using exec_renderRegex_iff[of "''@client let x = 5; <p>{x}</p>''"] by simp
  from checkTemplates_without_render_block[OF h, of 0 lit_eval "''a.remi''"] h show ?thesis by simp
qed


section \<open>The loops as folds over the matches\<close>

text \<open>
  A loop \<^verbatim>\<open>while ((match = regex.exec(s)) !== null)\<close> visits the matches \<^verbatim>\<open>match_all\<close>
  lists, when the regular expression cannot match the empty text.
\<close>

lemma match_all_step:
  "0 < minlen r \<Longrightarrow>
   match_all r s i = (case exec r s i of None \<Rightarrow> [] | Some m \<Rightarrow> m # match_all r s (m_end m))"
  by (subst match_all.simps) (auto split: option.splits dest!: exec_bounds)

text \<open>\<^verbatim>\<open>state.variables.set(name, varData)\<close> for one match.\<close>

definition setVariable :: "evaluator \<Rightarrow> CompileState \<Rightarrow> rmatch \<Rightarrow> CompileState" where
  "setVariable ev state m = state\<lparr>variables := (variables state)(grp m 3 \<mapsto> varData ev m)\<rparr>"

lemma parseVariables_loop_foldl:
  "parseVariables_loop ev code i st = foldl (setVariable ev) st (match_all varRegex code i)"
proof (induction ev code i st rule: parseVariables_loop.induct)
  case (1 ev code lastIndex state)
  show ?case
  proof (cases "exec varRegex code lastIndex")
    case None
    then show ?thesis
      by (subst parseVariables_loop.simps, subst match_all_step[OF minlen_varRegex]) simp
  next
    case (Some m)
    from 1[OF Some] Some show ?thesis
      by (subst parseVariables_loop.simps, subst match_all_step[OF minlen_varRegex])
         (simp add: setVariable_def[abs_def])
  qed
qed

lemma foldl_setVariable_variables:
  "variables (foldl (setVariable ev) st ms) name =
     (case List.find (\<lambda>m. grp m 3 = name) (rev ms) of
        None \<Rightarrow> variables st name
      | Some m \<Rightarrow> Some (varData ev m))"
proof (induction ms arbitrary: st rule: rev_induct)
  case Nil
  then show ?case by simp
next
  case (snoc m ms)
  show ?case
  proof (cases "grp m 3 = name")
    case True
    then show ?thesis by (simp add: setVariable_def)
  next
    case False
    have "variables (foldl (setVariable ev) st (ms @ [m])) name = variables (foldl (setVariable ev) st ms) name"
      using False by (simp add: setVariable_def)
    with snoc[of st] False show ?thesis by simp
  qed
qed

lemma foldl_setVariable_errors: "errors (foldl (setVariable ev) st ms) = errors st"
  by (induction ms arbitrary: st) (simp_all add: setVariable_def)

lemma evaluateExpression_cong:
  "variables st = variables st' \<Longrightarrow> evaluateExpression ev st e = evaluateExpression ev st' e"
  by (simp add: evaluateExpression_def split: option.splits)

lemma isResolvableAtCompileTime_cong:
  "variables st = variables st' \<Longrightarrow> isResolvableAtCompileTime ev st e = isResolvableAtCompileTime ev st' e"
  by (simp add: isResolvableAtCompileTime_def evaluateExpression_cong[of st st'])

lemma checkMatch_cong:
  "variables st = variables st' \<Longrightarrow> checkMatch ev st = checkMatch ev st'"
  by (intro ext) (simp add: checkMatch_def Let_def isResolvableAtCompileTime_cong[of st st'])

lemma checkTemplateExpressions_loop_errors:
  "checkTemplateExpressions_loop ev content pc code i st =
     st\<lparr>errors := errors st @ concat (map (checkMatch ev st code content pc) (match_all templateRegex pc i))\<rparr>"
proof (induction ev content pc code i st rule: checkTemplateExpressions_loop.induct)
  case (1 ev content pc code lastIndex state)
  show ?case
  proof (cases "exec templateRegex pc lastIndex")
    case None
    then show ?thesis
      by (subst checkTemplateExpressions_loop.simps, subst match_all_step[OF minlen_templateRegex]) simp
  next
    case (Some m)
    have c: "checkMatch ev (state\<lparr>errors := es\<rparr>) = checkMatch ev state" for es
      by (rule checkMatch_cong) simp
    show ?thesis
      by (subst checkTemplateExpressions_loop.simps, subst match_all_step[OF minlen_templateRegex])
         (simp add: Some 1[OF Some] c)
  qed
qed


section \<open>Variable extraction\<close>

text \<open>
  The extractor stores one entry for every match of \<open>varRegex\<close>: group 1 is the
  annotation, group 3 the name, group 4 the text of the initializer (empty when there
  is none).  The last match of a name is the first one in the reversed list of
  matches.
\<close>

lemma parseVariables_table:
  "variables (parseVariables ev code initialState) name =
     map_option (varData ev) (List.find (\<lambda>m. grp m 3 = name) (rev (match_all varRegex code 0)))"
  by (simp add: parseVariables_def parseVariables_loop_foldl foldl_setVariable_variables
      initialState_def split: option.splits)


subsection \<open>Greedy quantifiers\<close>

text \<open>
  A greedy quantifier over a character class takes the whole run of characters of the
  class when what follows matches behind it, and gives characters back from the end
  when it does not.
\<close>

lemma star_take:
  assumes "list_all f u" and "rest = [] \<or> \<not> f (hd rest)" and "K rest (p + length u) c = Some r"
  shows "run (Star f) (u @ rest) p c K = Some r"
  using assms
proof (induction u arbitrary: p)
  case Nil
  then show ?case by (cases rest) auto
next
  case (Cons a u)
  from Cons.prems have "run (Star f) (u @ rest) (Suc p) c K = Some r"
    by (intro Cons.IH) auto
  with Cons.prems show ?case by simp
qed

lemma plus_take:
  assumes "list_all f u" and "u \<noteq> []" and "rest = [] \<or> \<not> f (hd rest)"
      and "K rest (p + length u) c = Some r"
  shows "run (Plus f) (u @ rest) p c K = Some r"
proof -
  from assms(2) obtain a v where u: "u = a # v" by (cases u) auto
  with assms have "run (Star f) (v @ rest) (Suc p) c K = Some r"
    by (intro star_take) auto
  with u assms(1) show ?thesis by simp
qed

lemma star_fail:
  assumes "list_all f u" and "rest = [] \<or> \<not> f (hd rest)"
      and "\<forall>i \<le> length u. K (drop i u @ rest) (p + i) c = None"
  shows "run (Star f) (u @ rest) p c K = None"
  using assms
proof (induction u arbitrary: p)
  case Nil
  then show ?case by (cases rest) auto
next
  case (Cons a u)
  have "\<forall>i \<le> length u. K (drop i u @ rest) (Suc p + i) c = None"
  proof (intro allI impI)
    fix i assume "i \<le> length u"
    with Cons.prems(3)[rule_format, of "Suc i"] show "K (drop i u @ rest) (Suc p + i) c = None" by simp
  qed
  with Cons.prems have "run (Star f) (u @ rest) (Suc p) c K = None"
    by (intro Cons.IH) auto
  moreover from Cons.prems(3)[rule_format, of 0] have "K (a # u @ rest) p c = None" by simp
  ultimately show ?case using Cons.prems(1) by simp
qed

lemma plus_fail:
  assumes "list_all f u" and "rest = [] \<or> \<not> f (hd rest)"
      and "\<forall>i. 0 < i \<and> i \<le> length u \<longrightarrow> K (drop i u @ rest) (p + i) c = None"
  shows "run (Plus f) (u @ rest) p c K = None"
proof (cases u)
  case Nil
  with assms(2) show ?thesis by (cases rest) auto
next
  case (Cons a v)
  have "\<forall>i \<le> length v. K (drop i v @ rest) (Suc p + i) c = None"
  proof (intro allI impI)
    fix i assume "i \<le> length v"
    with assms(3)[rule_format, of "Suc i"] Cons show "K (drop i v @ rest) (Suc p + i) c = None" by simp
  qed
  with assms Cons have "run (Star f) (v @ rest) (Suc p) c K = None"
    by (intro star_fail) auto
  with Cons assms(1) show ?thesis by simp
qed

text \<open>A greedy run gives back its last character when the continuation fails behind all of it.\<close>

lemma plus_back:
  assumes "list_all f u" and "u \<noteq> []" and "list_all f [a]" and "rest = [] \<or> \<not> f (hd rest)"
      and "K rest (p + length u + 1) c = None"
      and "K (a # rest) (p + length u) c = Some r"
  shows "run (Plus f) (u @ a # rest) p c K = Some r"
proof -
  have star: "run (Star f) (v @ a # rest) q c K = Some r" if "list_all f v" "K (a # rest) (q + length v) c = Some r"
     "K rest (q + length v + 1) c = None" for v q
    using that
  proof (induction v arbitrary: q)
    case Nil
    have "run (Star f) rest (Suc q) c K = None"
      using assms(4) Nil by (cases rest) auto
    with Nil assms(3) show ?case by simp
  next
    case (Cons b v)
    from Cons.prems have "run (Star f) (v @ a # rest) (Suc q) c K = Some r"
      by (intro Cons.IH) auto
    with Cons.prems show ?case by simp
  qed
  from assms(2) obtain b v where u: "u = b # v" by (cases u) auto
  with assms have "run (Star f) (v @ a # rest) (Suc p) c K = Some r"
    by (intro star) auto
  with u assms(1) show ?thesis by simp
qed

lemma opt_take: "run a s p c K = Some r \<Longrightarrow> run (Opt a) s p c K = Some r"
  by simp

lemma opt_skip: "run a s p c K = None \<Longrightarrow> run (Opt a) s p c K = K s p c"
  by simp

lemma alt_left: "run a s p c K = Some r \<Longrightarrow> run (Alt a b) s p c K = Some r"
  by simp

lemma alt_right: "run a s p c K = None \<Longrightarrow> run (Alt a b) s p c K = run b s p c K"
  by simp

lemma lit_take: "run (Lit l) (l @ rest) p c K = K rest (p + length l) c"
  by (simp add: startsWith_iff)


subsection \<open>Declarations\<close>

text \<open>
  A declaration as the extractor's regular expression reads it: \<^verbatim>\<open>@\<close> and an
  annotation, white space, one of \<^verbatim>\<open>const\<close>, \<^verbatim>\<open>let\<close>, \<^verbatim>\<open>var\<close> or nothing, white space
  again, a name, and optionally \<^verbatim>\<open>=\<close> between white space and an initializer, which is
  the text up to the next semicolon.  The record holds the parts of the text of one
  declaration and the text that follows its semicolon (up to the next declaration);
  \<open>d_initializer\<close> is empty when there is no initializer.
\<close>

record Declaration =
  d_annotation :: string
  d_space1 :: string
  d_keyword :: string
  d_space2 :: string
  d_name :: string
  d_space3 :: string
  d_space4 :: string
  d_initializer :: string
  d_trailer :: string

definition initializerText :: "Declaration \<Rightarrow> string" where
  "initializerText d =
     (if d_initializer d = [] then []
      else d_space3 d @ ''='' @ d_space4 d @ d_initializer d)"

definition declarationHead :: "Declaration \<Rightarrow> string" where
  "declarationHead d =
     ''@'' @ d_annotation d @ d_space1 d @ d_keyword d @ d_space2 d @ d_name d @ initializerText d"

definition declarationText :: "Declaration \<Rightarrow> string" where
  "declarationText d = declarationHead d @ '';'' @ d_trailer d"

definition isDeclaration :: "Declaration \<Rightarrow> bool" where
  "isDeclaration d =
     (d_annotation d \<in> set [''client'', ''server'', ''public'', ''sset'', ''readable'']
      \<and> d_keyword d \<in> set [[], ''const'', ''let'', ''var'']
      \<and> d_space1 d \<noteq> [] \<and> list_all is_space (d_space1 d)
      \<and> d_space2 d \<noteq> [] \<and> list_all is_space (d_space2 d)
      \<and> d_name d \<noteq> [] \<and> list_all is_word (d_name d)
      \<and> list_all is_space (d_space3 d) \<and> list_all is_space (d_space4 d)
      \<and> list_all (\<lambda>c. c \<noteq> CHR '';'') (d_initializer d)
      \<and> (d_initializer d = [] \<or> \<not> is_space (hd (d_initializer d)))
      \<and> list_all (\<lambda>c. c \<noteq> CHR ''@'') (d_trailer d))"

lemma space_not_word: "is_space c \<Longrightarrow> \<not> is_word c"
  by (auto simp: is_space_def is_word_def is_alpha_def is_digit_def Let_def)

abbreviation "initGroup \<equiv> Opt (Seq (Star is_space) (Seq (Lit ''='') (Seq (Star is_space)
                               (Cap 4 (Plus (\<lambda>c. c \<noteq> CHR '';''))))))"
abbreviation "nameGroup \<equiv> Seq (Cap 3 (Plus is_word)) initGroup"
abbreviation "space2Group \<equiv> Seq (Plus is_space) nameGroup"
abbreviation "keywordGroup \<equiv> Seq (Opt (Cap 2 (Alt (Lit ''const'') (Alt (Lit ''let'') (Lit ''var''))))) space2Group"
abbreviation "space1Group \<equiv> Seq (Plus is_space) keywordGroup"

lemma varRegex_groups:
  "varRegex = Seq (Lit ''@'')
     (Seq (Cap 1 (Alt (Lit ''client'') (Alt (Lit ''server'') (Alt (Lit ''public'')
               (Alt (Lit ''sset'') (Lit ''readable'')))))) space1Group)"
  by (simp add: varRegex_def)

text \<open>The text behind a name: it does not start with a word character.\<close>

lemma initializerText_start:
  assumes "isDeclaration d"
  shows "\<not> is_word (hd (initializerText d @ CHR '';'' # t))"
proof (cases "d_initializer d = []")
  case True
  then show ?thesis by (simp add: initializerText_def is_word_def is_alpha_def is_digit_def Let_def)
next
  case False
  show ?thesis
  proof (cases "d_space3 d")
    case Nil
    with False show ?thesis by (simp add: initializerText_def is_word_def is_alpha_def is_digit_def Let_def)
  next
    case (Cons a v)
    with assms have "is_space a" by (simp add: isDeclaration_def)
    with Cons False show ?thesis by (simp add: initializerText_def space_not_word)
  qed
qed

lemma run_initGroup:
  assumes "isDeclaration d"
  shows "run initGroup (initializerText d @ CHR '';'' # t) p c (accept p0)
           = Some \<lparr>m_index = p0, m_end = p + length (initializerText d),
                   m_groups = (if d_initializer d = [] then c else c(4 \<mapsto> d_initializer d))\<rparr>"
proof (cases "d_initializer d = []")
  case True
  then show ?thesis
    by (simp add: initializerText_def is_space_def accept_def)
next
  case False
  let ?i = "d_initializer d"
  from assms have s3: "list_all is_space (d_space3 d)" and s4: "list_all is_space (d_space4 d)"
    and i: "list_all (\<lambda>c. c \<noteq> CHR '';'') ?i" and h: "\<not> is_space (hd ?i)"
    using False by (auto simp: isDeclaration_def)
  have "run initGroup (d_space3 d @ ''='' @ d_space4 d @ ?i @ CHR '';'' # t) p c (accept p0)
           = Some \<lparr>m_index = p0, m_end = p + length (initializerText d), m_groups = c(4 \<mapsto> ?i)\<rparr>"
    apply (rule opt_take)
    apply (simp only: run.simps(6))
    apply (rule star_take)
      apply (rule s3)
     apply (simp add: is_space_def)
    apply (simp del: run.simps(3,4))
    apply (rule star_take)
      apply (rule s4)
     apply (simp add: False h)
    apply (rule plus_take)
       apply (rule i)
      apply (rule False)
     apply simp
    apply (simp add: accept_def initializerText_def False)
    done
  with False show ?thesis by (simp add: initializerText_def)
qed


definition nameCaps :: "Declaration \<Rightarrow> caps \<Rightarrow> caps" where
  "nameCaps d c = (if d_initializer d = [] then c(3 \<mapsto> d_name d)
                   else c(3 \<mapsto> d_name d, 4 \<mapsto> d_initializer d))"

lemma run_nameGroup:
  assumes "isDeclaration d"
  shows "run nameGroup (d_name d @ initializerText d @ CHR '';'' # t) p c (accept p0)
           = Some \<lparr>m_index = p0, m_end = p + length (d_name d @ initializerText d),
                   m_groups = nameCaps d c\<rparr>"
proof -
  from assms have n: "list_all is_word (d_name d)" "d_name d \<noteq> []"
    by (auto simp: isDeclaration_def)
  show ?thesis
    apply (subst run.simps(6))
    apply (subst run.simps(9))
    apply (rule plus_take)
       apply (rule n)
      apply (rule n)
     apply (simp add: initializerText_start[OF assms])
    apply (subst run_initGroup[OF assms])
    apply (simp add: nameCaps_def)
    done
qed

lemma run_space2Group:
  assumes "isDeclaration d" and "list_all is_space g" and "g \<noteq> []"
  shows "run space2Group (g @ d_name d @ initializerText d @ CHR '';'' # t) p c (accept p0)
           = Some \<lparr>m_index = p0, m_end = p + length (g @ d_name d @ initializerText d),
                   m_groups = nameCaps d c\<rparr>"
proof -
  from assms have n: "list_all is_word (d_name d)" "d_name d \<noteq> []"
    by (auto simp: isDeclaration_def)
  then have "is_word (hd (d_name d))" by (cases "d_name d") auto
  then have h: "\<not> is_space (hd (d_name d))" using space_not_word by blast
  show ?thesis
    apply (subst run.simps(6))
    apply (rule plus_take)
       apply (rule assms(2))
      apply (rule assms(3))
     apply (simp add: n h)
    apply (subst run_nameGroup[OF assms(1)])
    apply (simp add: add.assoc)
    done
qed


abbreviation "keywordAlt \<equiv> Alt (Lit ''const'') (Alt (Lit ''let'') (Lit ''var''))"

lemma run_keywordGroup_keyword:
  assumes "isDeclaration d" and "k \<in> set [''const'', ''let'', ''var'']"
      and "list_all is_space g" and "g \<noteq> []"
  shows "run keywordGroup (k @ g @ d_name d @ initializerText d @ CHR '';'' # t) p c (accept p0)
           = Some \<lparr>m_index = p0, m_end = p + length (k @ g @ d_name d @ initializerText d),
                   m_groups = nameCaps d (c(2 \<mapsto> k))\<rparr>"
proof -
  note r = run_space2Group[OF assms(1,3,4)]
  from assms(2) consider "k = ''const''" | "k = ''let''" | "k = ''var''" by auto
  then show ?thesis
  proof cases
    case 1
    show ?thesis unfolding 1
      apply (subst run.simps(6))
      apply (rule opt_take)
      apply (subst run.simps(9))
      apply (rule alt_left)
      apply (simp del: run.simps(3,4,6))
      apply (subst r)
      apply simp
      done
  next
    case 2
    show ?thesis unfolding 2
      apply (subst run.simps(6))
      apply (rule opt_take)
      apply (subst run.simps(9))
      apply (subst alt_right)
       apply simp
      apply (rule alt_left)
      apply (simp del: run.simps(3,4,6))
      apply (subst r)
      apply simp
      done
  next
    case 3
    show ?thesis unfolding 3
      apply (subst run.simps(6))
      apply (rule opt_take)
      apply (subst run.simps(9))
      apply (subst alt_right)
       apply simp
      apply (subst alt_right)
       apply simp
      apply (simp del: run.simps(3,4,6))
      apply (subst r)
      apply simp
      done
  qed
qed

lemma run_keywordGroup_space:
  assumes "isDeclaration d" and "is_space a"
  shows "run keywordGroup (a # d_name d @ initializerText d @ CHR '';'' # t) p c (accept p0)
           = Some \<lparr>m_index = p0, m_end = Suc (p + length (d_name d @ initializerText d)),
                   m_groups = nameCaps d c\<rparr>"
proof -
  from assms(2) have a: "a \<noteq> CHR ''c''" "a \<noteq> CHR ''l''" "a \<noteq> CHR ''v''"
    by (auto simp: is_space_def)
  from run_space2Group[OF assms(1), of "[a]" t p c p0] assms(2)
  have r: "run space2Group (a # d_name d @ initializerText d @ CHR '';'' # t) p c (accept p0)
           = Some \<lparr>m_index = p0, m_end = Suc (p + length (d_name d @ initializerText d)),
                   m_groups = nameCaps d c\<rparr>"
    by simp
  show ?thesis
    apply (subst run.simps(6))
    apply (subst opt_skip)
     apply (simp add: a del: run.simps(3,4,6))
    apply (rule r)
    done
qed

lemma nameGroup_fail: "s = [] \<or> \<not> is_word (hd s) \<Longrightarrow> run nameGroup s p c K = None"
  by (cases s) auto

lemma space2Group_fail: "s = [] \<or> \<not> is_space (hd s) \<Longrightarrow> run space2Group s p c K = None"
  by (cases s) auto

lemma space2Group_behind_name:
  assumes "isDeclaration d"
  shows "run space2Group (initializerText d @ CHR '';'' # t) p c K = None"
proof (cases "d_initializer d = []")
  case True
  then show ?thesis by (simp add: initializerText_def is_space_def)
next
  case False
  from assms have s3: "list_all is_space (d_space3 d)" by (simp add: isDeclaration_def)
  have "run space2Group (d_space3 d @ CHR ''='' # d_space4 d @ d_initializer d @ CHR '';'' # t) p c K = None"
    apply (subst run.simps(6))
    apply (rule plus_fail)
      apply (rule s3)
     apply (simp add: is_space_def)
    apply (intro allI impI)
    apply (rule nameGroup_fail)
    subgoal for i
    proof (cases "drop i (d_space3 d)")
      case Nil
      then show ?thesis by (simp add: is_word_def is_alpha_def is_digit_def Let_def)
    next
      case (Cons a w)
      then have "a \<in> set (drop i (d_space3 d))" by simp
      then have "a \<in> set (d_space3 d)" by (rule in_set_dropD)
      with s3 have "is_space a" by (simp add: list_all_iff)
      with Cons show ?thesis by (simp add: space_not_word)
    qed
    done
  with False show ?thesis by (simp add: initializerText_def)
qed

lemma word_prefix:
  assumes "startsWith (n @ X) L" and "list_all is_word L" and "X = [] \<or> \<not> is_word (hd X)"
  shows "\<exists>v. n = L @ v"
proof -
  from assms(1) obtain t' where "n @ X = L @ t'" unfolding startsWith_iff by blast
  then obtain us where "(n = L @ us \<and> us @ X = t') \<or> (n @ us = L \<and> X = us @ t')"
    unfolding append_eq_append_conv2 by blast
  then show ?thesis
  proof
    assume "n = L @ us \<and> us @ X = t'"
    then show ?thesis by blast
  next
    assume h: "n @ us = L \<and> X = us @ t'"
    show ?thesis
    proof (cases us)
      case Nil
      with h show ?thesis by simp
    next
      case (Cons a w)
      with h assms(2) have "is_word a" by auto
      with h Cons assms(3) show ?thesis by simp
    qed
  qed
qed

lemma keyword_in_name:
  assumes "isDeclaration d" and "list_all is_word L"
  shows "run (Lit L) (d_name d @ initializerText d @ CHR '';'' # t) p c
            (\<lambda>s' p' c'. run space2Group s' p' (F s' p' c') K) = None"
proof (cases "startsWith (d_name d @ initializerText d @ CHR '';'' # t) L")
  case False
  then show ?thesis by simp
next
  case True
  from assms(1) have n: "list_all is_word (d_name d)" by (simp add: isDeclaration_def)
  from word_prefix[OF True assms(2)] initializerText_start[OF assms(1), of t]
  obtain v where v: "d_name d = L @ v" by auto
  have "run space2Group (v @ initializerText d @ CHR '';'' # t) q c' K = None" for q c'
  proof (cases v)
    case Nil
    then show ?thesis by (simp add: space2Group_behind_name[OF assms(1)] del: run.simps)
  next
    case (Cons a w)
    with n v have "is_word a" by simp
    then have "\<not> is_space a" using space_not_word by blast
    with Cons show ?thesis by (intro space2Group_fail) simp
  qed
  with True v show ?thesis by (simp del: run.simps(3,4,6))
qed

lemma run_keywordGroup_name:
  assumes "isDeclaration d"
  shows "run keywordGroup (d_name d @ initializerText d @ CHR '';'' # t) p c K = None"
proof -
  from assms have n: "list_all is_word (d_name d)" "d_name d \<noteq> []"
    by (auto simp: isDeclaration_def)
  then have "is_word (hd (d_name d))" by (cases "d_name d") auto
  then have h: "\<not> is_space (hd (d_name d))" using space_not_word by blast
  have w: "list_all is_word ''const''" "list_all is_word ''let''" "list_all is_word ''var''"
    by (simp_all add: is_word_def is_alpha_def is_digit_def Let_def)
  show ?thesis
    apply (subst run.simps(6))
    apply (subst opt_skip)
     apply (subst run.simps(9))
     apply (subst run.simps(7))
     apply (subst keyword_in_name[OF assms w(1)])
     apply (subst run.simps(7))
     apply (subst keyword_in_name[OF assms w(2)])
     apply (subst keyword_in_name[OF assms w(3)])
     apply simp
    apply (rule space2Group_fail)
    apply (simp add: n h)
    done
qed


lemma run_space1Group:
  assumes "isDeclaration d"
  shows "run space1Group
            (d_space1 d @ d_keyword d @ d_space2 d @ d_name d @ initializerText d @ CHR '';'' # t)
            p c (accept p0)
           = Some \<lparr>m_index = p0,
                   m_end = p + length (d_space1 d @ d_keyword d @ d_space2 d @ d_name d @ initializerText d),
                   m_groups = nameCaps d (if d_keyword d = [] then c else c(2 \<mapsto> d_keyword d))\<rparr>"
proof (cases "d_keyword d = []")
  case False
  with assms have k: "d_keyword d \<in> set [''const'', ''let'', ''var'']" by (auto simp: isDeclaration_def)
  then have h: "\<not> is_space (hd (d_keyword d))" by (auto simp: is_space_def)
  from assms have s: "list_all is_space (d_space1 d)" "d_space1 d \<noteq> []"
      "list_all is_space (d_space2 d)" "d_space2 d \<noteq> []"
    by (auto simp: isDeclaration_def)
  show ?thesis
    apply (subst run.simps(6))
    apply (rule plus_take)
       apply (rule s(1))
      apply (rule s(2))
     apply (simp add: False h)
    apply (subst run_keywordGroup_keyword[OF assms k s(3,4)])
    apply (simp add: False add.assoc)
    done
next
  case True
  from assms have s: "list_all is_space (d_space1 d)" "d_space1 d \<noteq> []"
      "list_all is_space (d_space2 d)" "d_space2 d \<noteq> []"
    by (auto simp: isDeclaration_def)
  from assms have n: "list_all is_word (d_name d)" "d_name d \<noteq> []"
    by (auto simp: isDeclaration_def)
  then have "is_word (hd (d_name d))" by (cases "d_name d") auto
  then have h: "\<not> is_space (hd (d_name d))" using space_not_word by blast
  let ?u = "d_space1 d @ butlast (d_space2 d)"
  let ?a = "last (d_space2 d)"
  let ?X = "d_name d @ initializerText d @ CHR '';'' # t"
  from s(4) have sp: "d_space2 d = butlast (d_space2 d) @ [?a]" by simp
  have u: "list_all is_space ?u" "?u \<noteq> []"
    using s by (auto simp: list_all_iff dest: in_set_butlastD)
  have a: "is_space ?a" using s(3,4) by (simp add: list_all_iff)
  from sp have l2: "length (d_space2 d) = Suc (length (butlast (d_space2 d)))"
    by (metis length_append_singleton)
  have eq1: "d_space1 d @ d_keyword d @ d_space2 d @ d_name d @ initializerText d @ CHR '';'' # t
               = ?u @ ?a # ?X"
    using True sp by (metis append.assoc append_Cons append_Nil)
  have eq2: "p + length (d_space1 d @ d_keyword d @ d_space2 d @ d_name d @ initializerText d)
               = Suc (p + length ?u + length (d_name d @ initializerText d))"
    using True l2 by simp
  have r: "run space1Group (?u @ ?a # ?X) p c (accept p0)
           = Some \<lparr>m_index = p0, m_end = Suc (p + length ?u + length (d_name d @ initializerText d)),
                   m_groups = nameCaps d c\<rparr>"
    apply (subst run.simps(6))
    apply (rule plus_back)
         apply (rule u(1))
        apply (rule u(2))
       apply (simp add: a)
      apply (simp add: n h)
     apply (rule run_keywordGroup_name[OF assms])
    apply (subst run_keywordGroup_space[OF assms a])
    apply simp
    done
  from r show ?thesis unfolding eq1 eq2 by (simp add: True del: run.simps)
qed

abbreviation "annotationAlt \<equiv> Alt (Lit ''client'') (Alt (Lit ''server'') (Alt (Lit ''public'')
               (Alt (Lit ''sset'') (Lit ''readable''))))"

lemma run_annotationAlt:
  assumes "a \<in> set [''client'', ''server'', ''public'', ''sset'', ''readable'']"
      and "K rest (p + length a) c = Some r"
  shows "run annotationAlt (a @ rest) p c K = Some r"
proof -
  from assms(1) consider "a = ''client''" | "a = ''server''" | "a = ''public''" | "a = ''sset''"
    | "a = ''readable''" by auto
  then show ?thesis
    using assms(2) by cases simp_all
qed

lemma run_varRegex:
  assumes "isDeclaration d"
  shows "\<exists>m. run varRegex (declarationHead d @ CHR '';'' # t) p Map.empty (accept p) = Some m
           \<and> m_index m = p \<and> m_end m = p + length (declarationHead d)
           \<and> grp m 1 = d_annotation d \<and> grp m 3 = d_name d \<and> grp m 4 = d_initializer d"
proof -
  from assms have a: "d_annotation d \<in> set [''client'', ''server'', ''public'', ''sset'', ''readable'']"
    by (simp add: isDeclaration_def)
  let ?Y = "d_space1 d @ d_keyword d @ d_space2 d @ d_name d @ initializerText d @ CHR '';'' # t"
  let ?m = "\<lparr>m_index = p, m_end = p + length (declarationHead d),
             m_groups = nameCaps d (if d_keyword d = [] then [1 \<mapsto> d_annotation d]
                                    else [1 \<mapsto> d_annotation d, 2 \<mapsto> d_keyword d])\<rparr>"
  have "run varRegex (''@'' @ d_annotation d @ ?Y) p Map.empty (accept p) = Some ?m"
    unfolding varRegex_groups
    apply (subst run.simps(6))
    apply (subst lit_take)
    apply (subst run.simps(6))
    apply (subst run.simps(9))
    apply (rule run_annotationAlt)
     apply (rule a)
    apply (subst run_space1Group[OF assms])
    apply (simp add: declarationHead_def)
    done
  moreover have "declarationHead d @ CHR '';'' # t = ''@'' @ d_annotation d @ ?Y"
    by (simp add: declarationHead_def)
  moreover have "grp ?m 1 = d_annotation d \<and> grp ?m 3 = d_name d \<and> grp ?m 4 = d_initializer d"
    by (simp add: grp_def nameCaps_def)
  ultimately show ?thesis
    by (intro exI[of _ ?m]) (simp del: run.simps)
qed

lemma search_varRegex_skip:
  "list_all (\<lambda>c. c \<noteq> CHR ''@'') g \<Longrightarrow> search varRegex (g @ s) p = search varRegex s (p + length g)"
proof (induction g arbitrary: p)
  case Nil
  show ?case by simp
next
  case (Cons a g)
  then have "run varRegex (a # g @ s) p Map.empty (accept p) = None"
    by (simp add: varRegex_groups)
  with Cons show ?case by simp
qed

lemma search_varRegex_Nil: "search varRegex [] p = None"
  by (simp add: varRegex_groups)

lemma search_varRegex_declaration:
  assumes "isDeclaration d"
  shows "\<exists>m. search varRegex (declarationHead d @ CHR '';'' # t) p = Some m
           \<and> m_index m = p \<and> m_end m = p + length (declarationHead d)
           \<and> grp m 1 = d_annotation d \<and> grp m 3 = d_name d \<and> grp m 4 = d_initializer d"
proof -
  from run_varRegex[OF assms, of t p] obtain m where
    m: "run varRegex (declarationHead d @ CHR '';'' # t) p Map.empty (accept p) = Some m"
       "m_index m = p" "m_end m = p + length (declarationHead d)"
       "grp m 1 = d_annotation d" "grp m 3 = d_name d" "grp m 4 = d_initializer d"
    by blast
  obtain x xs where x: "declarationHead d @ CHR '';'' # t = x # xs"
    by (cases "declarationHead d @ CHR '';'' # t") auto
  from m(1) have "search varRegex (declarationHead d @ CHR '';'' # t) p = Some m"
    unfolding x by (simp del: run.simps)
  with m show ?thesis by blast
qed

lemma match_all_declarations:
  assumes "list_all isDeclaration ds" and "list_all (\<lambda>c. c \<noteq> CHR ''@'') g"
  shows "map (\<lambda>m. (grp m 1, grp m 3, grp m 4))
             (match_all varRegex (a @ g @ concat (map declarationText ds)) (length a))
           = map (\<lambda>d. (d_annotation d, d_name d, d_initializer d)) ds"
  using assms
proof (induction ds arbitrary: a g)
  case Nil
  have "exec varRegex (a @ g) (length a) = None"
    using Nil.prems(2) search_varRegex_skip[of g "[]"]
    by (simp add: exec_def search_varRegex_Nil del: search.simps)
  then show ?case
    by (subst match_all_step[OF minlen_varRegex]) simp
next
  case (Cons d ds)
  let ?rest = "concat (map declarationText ds)"
  let ?code = "a @ g @ concat (map declarationText (d # ds))"
  from Cons.prems have d: "isDeclaration d" and ds: "list_all isDeclaration ds"
    by simp_all
  from d have tr: "list_all (\<lambda>c. c \<noteq> CHR ''@'') (d_trailer d)"
    by (simp add: isDeclaration_def)
  have code: "?code = a @ g @ declarationHead d @ CHR '';'' # d_trailer d @ ?rest"
    by (simp add: declarationText_def)
  from search_varRegex_declaration[OF d, of "d_trailer d @ ?rest" "length a + length g"]
  obtain m where m: "search varRegex (declarationHead d @ CHR '';'' # d_trailer d @ ?rest)
                        (length a + length g) = Some m"
       "m_end m = length a + length g + length (declarationHead d)"
       "grp m 1 = d_annotation d" "grp m 3 = d_name d" "grp m 4 = d_initializer d"
    by blast
  have e: "exec varRegex ?code (length a) = Some m"
    unfolding code exec_def using m(1) search_varRegex_skip[OF Cons.prems(2)]
    by (simp del: search.simps)
  have code2: "?code = (a @ g @ declarationHead d) @ (CHR '';'' # d_trailer d) @ ?rest"
    by (simp add: declarationText_def)
  have l: "m_end m = length (a @ g @ declarationHead d)"
    using m(2) by simp
  have "map (\<lambda>m. (grp m 1, grp m 3, grp m 4)) (match_all varRegex ?code (m_end m))
          = map (\<lambda>d. (d_annotation d, d_name d, d_initializer d)) ds"
    unfolding code2 l using ds tr by (intro Cons.IH) auto
  with e m show ?case
    by (subst match_all_step[OF minlen_varRegex]) simp
qed

lemma find_projection:
  assumes "map (\<lambda>m. (f m, h m)) ms = map (\<lambda>d. (f' d, h' d)) ds"
  shows "map_option h (List.find (\<lambda>m. f m = n) ms) = map_option h' (List.find (\<lambda>d. f' d = n) ds)"
  using assms
proof (induction ms arbitrary: ds)
  case Nil
  then show ?case by simp
next
  case (Cons m ms)
  then obtain d ds' where "ds = d # ds'" by (cases ds) auto
  with Cons show ?case by auto
qed

definition declaredEntry :: "evaluator \<Rightarrow> Declaration \<Rightarrow> Variable" where
  "declaredEntry ev d =
     (case (if d_initializer d = [] then None else ev (d_initializer d)) of
        Some v \<Rightarrow> \<lparr>vtype = d_annotation d, vvalue = v, initialized = True\<rparr>
      | None \<Rightarrow> \<lparr>vtype = d_annotation d, vvalue = JUndefined, initialized = False\<rparr>)"

lemma parseVariables_declarations_table:
  assumes "list_all isDeclaration ds" and "list_all (\<lambda>c. c \<noteq> CHR ''@'') pre"
  shows "variables (parseVariables ev (pre @ concat (map declarationText ds)) initialState) name
           = map_option (declaredEntry ev) (List.find (\<lambda>d. d_name d = name) (rev ds))"
proof -
  let ?code = "pre @ concat (map declarationText ds)"
  let ?ms = "match_all varRegex ?code 0"
  from match_all_declarations[OF assms, of "[]"]
  have t: "map (\<lambda>m. (grp m 1, grp m 3, grp m 4)) ?ms
             = map (\<lambda>d. (d_annotation d, d_name d, d_initializer d)) ds"
    by simp
  let ?V = "\<lambda>(a, n, i). (n, case (if i = [] then None else ev i) of
        Some v \<Rightarrow> \<lparr>vtype = a, vvalue = v, initialized = True\<rparr>
      | None \<Rightarrow> \<lparr>vtype = a, vvalue = JUndefined, initialized = False\<rparr>)"
  have "map (\<lambda>m. (grp m 3, varData ev m)) ?ms = map ?V (map (\<lambda>m. (grp m 1, grp m 3, grp m 4)) ?ms)"
    by (simp add: varData_def Let_def split: option.splits)
  also have "\<dots> = map ?V (map (\<lambda>d. (d_annotation d, d_name d, d_initializer d)) ds)"
    unfolding t ..
  also have "\<dots> = map (\<lambda>d. (d_name d, declaredEntry ev d)) ds"
    by (simp add: declaredEntry_def)
  finally have "map (\<lambda>m. (grp m 3, varData ev m)) ?ms = map (\<lambda>d. (d_name d, declaredEntry ev d)) ds" .
  then have "map (\<lambda>m. (grp m 3, varData ev m)) (rev ?ms) = map (\<lambda>d. (d_name d, declaredEntry ev d)) (rev ds)"
    unfolding rev_map[symmetric] by simp
  from find_projection[OF this, of name] show ?thesis
    unfolding parseVariables_table .
qed


text \<open>
  Two declarations the extractor does not read as the text says.  The initializer of
  \<^verbatim>\<open>@client const s = "a;b";\<close> is a string literal that evaluates, but the captured
  text ends at the semicolon inside it, evaluating that throws, and \<open>s\<close> is left
  uninitialized.  \<^verbatim>\<open>@client x = 5;\<close> has a single blank between the annotation and the
  name, where the regular expression asks for white space on both sides of the
  optional keyword: there is no match and no entry.
\<close>

theorem declaration_counterexample:
  "variables (parseVariables lit_eval (''@client const s = '' @ [CHR 0x22] @ ''a;b'' @ [CHR 0x22] @ '';'')
                initialState) ''s''
     = Some \<lparr>vtype = ''client'', vvalue = JUndefined, initialized = False\<rparr>
   \<and> lit_eval ([CHR 0x22] @ ''a;b'' @ [CHR 0x22]) = Some (JStr ''a;b'')
   \<and> variables (parseVariables lit_eval ''@client x = 5;'' initialState) ''x'' = None
   \<and> lit_eval ''5'' = Some (JNum 5)"
  by code_simp

text \<open>
  Claim C7, amended.  For a source made of declarations, each ended by a semicolon, with no
  \<^verbatim>\<open>@\<close> before the first one or between two of them: after \<^verbatim>\<open>parseVariables\<close> a name is
  mapped to the entry of its last declaration in source order, whatever was declared
  under that name before: with the value of the initializer and \<open>initialized = True\<close>
  when the text of the initializer evaluates without error, and as an uninitialized
  entry when there is no initializer or evaluating it throws; a name that is not
  declared has no entry; and no Diagnostic is emitted.
\<close>

theorem parseVariables_declarations:
  assumes "list_all isDeclaration ds" and "list_all (\<lambda>c. c \<noteq> CHR ''@'') pre"
  shows "variables (parseVariables ev (pre @ concat (map declarationText ds)) initialState) name
           = (case List.find (\<lambda>d. d_name d = name) (rev ds) of
                None \<Rightarrow> None
              | Some d \<Rightarrow>
                  (case (if d_initializer d = [] then None else ev (d_initializer d)) of
                     Some v \<Rightarrow> Some \<lparr>vtype = d_annotation d, vvalue = v, initialized = True\<rparr>
                   | None \<Rightarrow> Some \<lparr>vtype = d_annotation d, vvalue = JUndefined, initialized = False\<rparr>))
         \<and> errors (parseVariables ev (pre @ concat (map declarationText ds)) initialState) = []"
proof -
  have "errors (parseVariables ev (pre @ concat (map declarationText ds)) initialState) = []"
    by (simp add: parseVariables_def parseVariables_loop_errors initialState_def)
  then show ?thesis
    unfolding parseVariables_declarations_table[OF assms]
    by (simp add: declaredEntry_def split: option.splits)
qed

definition exampleDeclarations :: "Declaration list" where
  "exampleDeclarations =
     [\<lparr>d_annotation = ''client'', d_space1 = '' '', d_keyword = ''let'', d_space2 = '' '',
       d_name = ''x'', d_space3 = '' '', d_space4 = '' '', d_initializer = ''1'', d_trailer = '' ''\<rparr>,
      \<lparr>d_annotation = ''server'', d_space1 = ''  '', d_keyword = [], d_space2 = '' '',
       d_name = ''x'', d_space3 = [], d_space4 = [], d_initializer = ''2'', d_trailer = '' ''\<rparr>,
      \<lparr>d_annotation = ''public'', d_space1 = '' '', d_keyword = ''var'', d_space2 = '' '',
       d_name = ''y'', d_space3 = '' '', d_space4 = '' '', d_initializer = ''z'', d_trailer = '' ''\<rparr>,
      \<lparr>d_annotation = ''sset'', d_space1 = '' '', d_keyword = ''let'', d_space2 = '' '',
       d_name = ''w'', d_space3 = [], d_space4 = [], d_initializer = [],
       d_trailer = ''<render>{x}</render>''\<rparr>]"

theorem parseVariables_declarations_witness:
  "(let code = ''// state '' @ concat (map declarationText exampleDeclarations);
        table = variables (parseVariables lit_eval code initialState)
    in code = ''// state @client let x = 1; @server   x=2; @public var y = z; @sset let w;<render>{x}</render>''
       \<and> table ''x'' = Some \<lparr>vtype = ''server'', vvalue = JNum 2, initialized = True\<rparr>
       \<and> table ''y'' = Some \<lparr>vtype = ''public'', vvalue = JUndefined, initialized = False\<rparr>
       \<and> table ''w'' = Some \<lparr>vtype = ''sset'', vvalue = JUndefined, initialized = False\<rparr>
       \<and> table ''z'' = None
       \<and> errors (parseVariables lit_eval code initialState) = [])"
proof -
  have wf: "list_all isDeclaration exampleDeclarations" by code_simp
  have pre: "list_all (\<lambda>c. c \<noteq> CHR ''@'') ''// state ''" by code_simp
  note T = parseVariables_declarations[OF wf pre, of lit_eval]
  have code: "''// state '' @ concat (map declarationText exampleDeclarations)
     = ''// state @client let x = 1; @server   x=2; @public var y = z; @sset let w;<render>{x}</render>''"
    by code_simp
  have x: "(case List.find (\<lambda>d. d_name d = ''x'') (rev exampleDeclarations) of
                None \<Rightarrow> None
              | Some d \<Rightarrow>
                  (case (if d_initializer d = [] then None else lit_eval (d_initializer d)) of
                     Some v \<Rightarrow> Some \<lparr>vtype = d_annotation d, vvalue = v, initialized = True\<rparr>
                   | None \<Rightarrow> Some \<lparr>vtype = d_annotation d, vvalue = JUndefined, initialized = False\<rparr>))
         = Some \<lparr>vtype = ''server'', vvalue = JNum 2, initialized = True\<rparr>"
    by code_simp
  have y: "(case List.find (\<lambda>d. d_name d = ''y'') (rev exampleDeclarations) of
                None \<Rightarrow> None
              | Some d \<Rightarrow>
                  (case (if d_initializer d = [] then None else lit_eval (d_initializer d)) of
                     Some v \<Rightarrow> Some \<lparr>vtype = d_annotation d, vvalue = v, initialized = True\<rparr>
                   | None \<Rightarrow> Some \<lparr>vtype = d_annotation d, vvalue = JUndefined, initialized = False\<rparr>))
         = Some \<lparr>vtype = ''public'', vvalue = JUndefined, initialized = False\<rparr>"
    by code_simp
  have w: "(case List.find (\<lambda>d. d_name d = ''w'') (rev exampleDeclarations) of
                None \<Rightarrow> None
              | Some d \<Rightarrow>
                  (case (if d_initializer d = [] then None else lit_eval (d_initializer d)) of
                     Some v \<Rightarrow> Some \<lparr>vtype = d_annotation d, vvalue = v, initialized = True\<rparr>
                   | None \<Rightarrow> Some \<lparr>vtype = d_annotation d, vvalue = JUndefined, initialized = False\<rparr>))
         = Some \<lparr>vtype = ''sset'', vvalue = JUndefined, initialized = False\<rparr>"
    by code_simp
  have z: "(case List.find (\<lambda>d. d_name d = ''z'') (rev exampleDeclarations) of
                None \<Rightarrow> None
              | Some d \<Rightarrow>
                  (case (if d_initializer d = [] then None else lit_eval (d_initializer d)) of
                     Some v \<Rightarrow> Some \<lparr>vtype = d_annotation d, vvalue = v, initialized = True\<rparr>
                   | None \<Rightarrow> Some \<lparr>vtype = d_annotation d, vvalue = JUndefined, initialized = False\<rparr>))
         = None"
    by code_simp
  from T[of "''x''"] T[of "''y''"] T[of "''w''"] T[of "''z''"] show ?thesis
    unfolding x y w z Let_def using code by simp
qed


section \<open>Validation\<close>

text \<open>What validation may do to the compile state: append Diagnostics.\<close>

definition extends :: "CompileState \<Rightarrow> CompileState \<Rightarrow> bool" where
  "extends st st' = (variables st' = variables st \<and> (\<exists>es. errors st' = errors st @ es))"

lemma extends_refl: "extends st st"
  by (simp add: extends_def)

lemma extends_trans: "extends st st1 \<Longrightarrow> extends st1 st2 \<Longrightarrow> extends st st2"
  by (auto simp: extends_def)

lemma checkTemplateExpressions_errors:
  "checkTemplateExpressions ev content st code =
     st\<lparr>errors := errors st @ concat (map (checkMatch ev st code content (maskAttributes content))
                                         (match_all templateRegex (maskAttributes content) 0))\<rparr>"
  by (simp add: checkTemplateExpressions_def checkTemplateExpressions_loop_errors)

lemma checkTemplateExpressions_extends: "extends st (checkTemplateExpressions ev content st code)"
  by (simp add: checkTemplateExpressions_errors extends_def)

lemma validation_extends:
  "(\<forall>ev c st code st'. checkRenderContent n ev c st code = Some st' \<longrightarrow> extends st st')
   \<and> (\<forall>ev r i st code r' st'. evaluateConditionals_loop n ev r i st code = Some (r', st') \<longrightarrow> extends st st')"
proof (induction n)
  case 0
  show ?case by simp
next
  case (Suc n)
  have a: "extends st st'" if "checkRenderContent (Suc n) ev c st code = Some st'" for ev c st code st'
  proof -
    from that obtain r' st1 where l: "evaluateConditionals_loop n ev c 0 st code = Some (r', st1)"
      and s: "st' = checkTemplateExpressions ev r' st1 code"
      by (auto split: option.splits prod.splits)
    from Suc l have "extends st st1" by blast
    with s show ?thesis by (blast intro: extends_trans checkTemplateExpressions_extends)
  qed
  have b: "extends st st'" if h: "evaluateConditionals_loop (Suc n) ev r i st code = Some (r', st')"
    for ev r i st code r' st'
  proof (cases "exec conditionalRegex r i")
    case None
    with h show ?thesis by (simp add: extends_refl)
  next
    case (Some m)
    show ?thesis
    proof (cases "\<exists>b. evaluateExpression ev st (trim (grp m 1)) = Inr (JBool b)")
      case True
      with h Some Suc show ?thesis by (auto simp: Let_def)
    next
      case False
      with h Some obtain st1 st2 where
        h1: "checkRenderContent n ev (grp m 2) st code = Some st1" and
        h2: "checkRenderContent n ev (grp m 3) st1 code = Some st2" and
        h3: "evaluateConditionals_loop n ev r (m_end m) st2 code = Some (r', st')"
        by (auto simp: Let_def split: option.splits sum.splits jsval.splits)
      from Suc h1 have "extends st st1" by blast
      moreover from Suc h2 have "extends st1 st2" by blast
      moreover from Suc h3 have "extends st2 st'" by blast
      ultimately show ?thesis by (blast intro: extends_trans)
    qed
  qed
  from a b show ?case by blast
qed


text \<open>More fuel does not change what a run returns.\<close>

lemma validation_fuel_Suc:
  "(\<forall>ev c st code x. checkRenderContent n ev c st code = Some x \<longrightarrow> checkRenderContent (Suc n) ev c st code = Some x)
   \<and> (\<forall>ev r i st code x. evaluateConditionals_loop n ev r i st code = Some x
          \<longrightarrow> evaluateConditionals_loop (Suc n) ev r i st code = Some x)"
proof (induction n)
  case 0
  show ?case by simp
next
  case (Suc n)
  have a: "checkRenderContent (Suc (Suc n)) ev c st code = Some x"
    if "checkRenderContent (Suc n) ev c st code = Some x" for ev c st code x
  proof -
    from that obtain r' st1 where l: "evaluateConditionals_loop n ev c 0 st code = Some (r', st1)"
      and s: "x = checkTemplateExpressions ev r' st1 code"
      by (auto split: option.splits prod.splits)
    from Suc l have "evaluateConditionals_loop (Suc n) ev c 0 st code = Some (r', st1)" by blast
    with s show ?thesis by (simp del: evaluateConditionals_loop.simps)
  qed
  have b: "evaluateConditionals_loop (Suc (Suc n)) ev r i st code = Some x"
    if h: "evaluateConditionals_loop (Suc n) ev r i st code = Some x" for ev r i st code x
  proof (cases "exec conditionalRegex r i")
    case None
    with h show ?thesis by simp
  next
    case (Some m)
    show ?thesis
    proof (cases "\<exists>b. evaluateExpression ev st (trim (grp m 1)) = Inr (JBool b)")
      case True
      then obtain b where b: "evaluateExpression ev st (trim (grp m 1)) = Inr (JBool b)" by blast
      with h Some have "evaluateConditionals_loop n ev
              (replace_str r (m_text r m) (if b then grp m 2 else grp m 3)) 0 st code = Some x"
        by (simp add: Let_def)
      with Suc have "evaluateConditionals_loop (Suc n) ev
              (replace_str r (m_text r m) (if b then grp m 2 else grp m 3)) 0 st code = Some x"
        by blast
      with Some b show ?thesis
        by (subst evaluateConditionals_loop.simps) (simp add: Let_def del: evaluateConditionals_loop.simps)
    next
      case False
      with h Some obtain st1 st2 where
        h1: "checkRenderContent n ev (grp m 2) st code = Some st1" and
        h2: "checkRenderContent n ev (grp m 3) st1 code = Some st2" and
        h3: "evaluateConditionals_loop n ev r (m_end m) st2 code = Some x"
        by (auto simp: Let_def split: option.splits sum.splits jsval.splits)
      from Suc h1 have g1: "checkRenderContent (Suc n) ev (grp m 2) st code = Some st1" by blast
      from Suc h2 have g2: "checkRenderContent (Suc n) ev (grp m 3) st1 code = Some st2" by blast
      from Suc h3 have g3: "evaluateConditionals_loop (Suc n) ev r (m_end m) st2 code = Some x" by blast
      from False Some g1 g2 g3 show ?thesis
        by (subst evaluateConditionals_loop.simps)
           (auto simp: Let_def split: sum.splits jsval.splits
                 simp del: evaluateConditionals_loop.simps checkRenderContent.simps)
    qed
  qed
  from a b show ?case by blast
qed

lemma checkRenderContent_fuel_mono:
  "checkRenderContent n ev c st code = Some x \<Longrightarrow> n \<le> n' \<Longrightarrow> checkRenderContent n' ev c st code = Some x"
proof (induction k \<equiv> "n' - n" arbitrary: n')
  case 0
  then show ?case by simp
next
  case (Suc k)
  then obtain n'' where n': "n' = Suc n''" "k = n'' - n" "n \<le> n''" by (cases n') auto
  from Suc(1)[OF n'(2) Suc(3) n'(3)] have "checkRenderContent n'' ev c st code = Some x" .
  with validation_fuel_Suc[of n''] n'(1) show ?case by blast
qed


text \<open>A branch of a conditional holds no conditional: validating it is validating its placeholders.\<close>

lemma lang_conditionalRegex:
  "u \<in> lang conditionalRegex \<Longrightarrow> CHR ''?'' \<in> set u \<and> CHR '':'' \<in> set u \<and> CHR '')'' \<in> set u"
  unfolding conditionalRegex_def seq.simps lang.simps by clarsimp

lemma exec_conditionalRegex_None:
  assumes "CHR ''?'' \<notin> set s \<or> CHR '':'' \<notin> set s \<or> CHR '')'' \<notin> set s"
  shows "exec conditionalRegex s i = None"
proof (cases "exec conditionalRegex s i")
  case (Some m)
  from exec_sound[OF Some] obtain a u b where "s = a @ u @ b" "u \<in> lang conditionalRegex" by blast
  with lang_conditionalRegex[of u] assms show ?thesis by auto
qed simp

lemma conditional_branches:
  assumes "exec conditionalRegex r i = Some m"
  shows "CHR '':'' \<notin> set (grp m 2)" and "CHR '')'' \<notin> set (grp m 3)"
proof -
  have c2: "caplang conditionalRegex 2 = {u. u \<noteq> [] \<and> list_all (\<lambda>c. c \<noteq> CHR '':'') u}"
    by (simp add: conditionalRegex_def)
  from exec_grp[OF assms, of 2] have "grp m 2 = [] \<or> list_all (\<lambda>c. c \<noteq> CHR '':'') (grp m 2)"
    unfolding c2 by blast
  then show "CHR '':'' \<notin> set (grp m 2)"
    unfolding list_all_iff by fastforce
  have c3: "caplang conditionalRegex 3 = {u. u \<noteq> [] \<and> list_all (\<lambda>c. c \<noteq> CHR '')'') u}"
    by (simp add: conditionalRegex_def)
  from exec_grp[OF assms, of 3] have "grp m 3 = [] \<or> list_all (\<lambda>c. c \<noteq> CHR '')'') (grp m 3)"
    unfolding c3 by blast
  then show "CHR '')'' \<notin> set (grp m 3)"
    unfolding list_all_iff by fastforce
qed

lemma checkRenderContent_no_conditional:
  "exec conditionalRegex c 0 = None \<Longrightarrow>
     checkRenderContent (Suc (Suc n)) ev c st code = Some (checkTemplateExpressions ev c st code)"
  by simp

text \<open>A conditional whose condition is not a boolean: both branches are validated.\<close>

lemma unresolved_condition_step:
  assumes "exec conditionalRegex result lastIndex = Some m"
      and "\<forall>b. evaluateExpression ev st (trim (grp m 1)) \<noteq> Inr (JBool b)"
  shows "evaluateConditionals_loop (Suc (Suc (Suc n))) ev result lastIndex st code
              = evaluateConditionals_loop (Suc (Suc n)) ev result (m_end m)
                  (checkTemplateExpressions ev (grp m 3)
                     (checkTemplateExpressions ev (grp m 2) st code) code) code"
proof -
  let ?st1 = "checkTemplateExpressions ev (grp m 2) st code"
  let ?st2 = "checkTemplateExpressions ev (grp m 3) ?st1 code"
  from conditional_branches[OF assms(1)] have
    n2: "exec conditionalRegex (grp m 2) 0 = None" and n3: "exec conditionalRegex (grp m 3) 0 = None"
    by (simp_all add: exec_conditionalRegex_None)
  have c2: "checkRenderContent (Suc (Suc n)) ev (grp m 2) st code = Some ?st1"
    using n2 by (rule checkRenderContent_no_conditional)
  have c3: "checkRenderContent (Suc (Suc n)) ev (grp m 3) ?st1 code = Some ?st2"
    using n3 by (rule checkRenderContent_no_conditional)
  show ?thesis
    using assms c2 c3
    by (subst evaluateConditionals_loop.simps)
       (auto simp: Let_def split: sum.splits jsval.splits
             simp del: evaluateConditionals_loop.simps checkRenderContent.simps)
qed

text \<open>The Diagnostics of the placeholders of a text: those \<^verbatim>\<open>checkTemplateExpressions\<close> appends.\<close>

definition templateDiagnostics :: "evaluator \<Rightarrow> CompileState \<Rightarrow> string \<Rightarrow> string \<Rightarrow> Diagnostic list" where
  "templateDiagnostics ev st code content =
     concat (map (checkMatch ev st code content (maskAttributes content))
                 (match_all templateRegex (maskAttributes content) 0))"

lemma templateDiagnostics_cong:
  "variables st = variables st' \<Longrightarrow> templateDiagnostics ev st = templateDiagnostics ev st'"
  by (intro ext) (simp add: templateDiagnostics_def checkMatch_cong[of st st'])

lemma templateDiagnostics_errors_update:
  "templateDiagnostics ev (st\<lparr>errors := es\<rparr>) = templateDiagnostics ev st"
  by (rule templateDiagnostics_cong) simp

lemma checkTemplateExpressions_diag:
  "checkTemplateExpressions ev content st code = st\<lparr>errors := errors st @ templateDiagnostics ev st code content\<rparr>"
  by (simp add: checkTemplateExpressions_errors templateDiagnostics_def)

text \<open>
  A branch is validated as render content: what is checked in it are its \<^verbatim>\<open>{...}\<close>
  placeholders.  In \<^verbatim>\<open>(u ? a : b)\<close> nothing resolves \<open>u\<close>, \<open>a\<close> or \<open>b\<close>, the branches hold
  no placeholder, and validation ends without a Diagnostic: the markup is generated
  and written.
\<close>

theorem bare_branch_counterexample:
  "map_option (\<lambda>m. (trim (grp m 1), trim (grp m 2), trim (grp m 3)))
       (exec conditionalRegex ''(u ? a : b)'' 0) = Some (''u'', ''a'', ''b'')
   \<and> evaluateExpression lit_eval initialState ''u'' = Inl (Error ''Cannot evaluate expression: u'')
   \<and> \<not> isResolvableAtCompileTime lit_eval initialState ''a''
   \<and> \<not> isResolvableAtCompileTime lit_eval initialState ''b''
   \<and> map_option errors
        (checkRenderContent (Suc (Suc (Suc (Suc 0)))) lit_eval ''(u ? a : b)'' initialState
           ''<render>(u ? a : b)</render>'') = Some []
   \<and> checkTemplates (Suc (Suc (Suc (Suc 0)))) lit_eval ''<render>(u ? a : b)</render>'' ''page.remi''
       = Some (Inr ''<render>(u ? a : b)</render>'',
               [\<lparr>directory = ''./out'', fileName = ''page.html'',
                 contents = ''<div>'' @ [nl] @ ''  a'' @ [nl] @ ''</div>''\<rparr>])"
  by code_simp

text \<open>
  Claim C3, amended.  For a conditional the validation loop finds (a match \<open>m\<close> of
  \<open>conditionalRegex\<close>, with the condition in group 1 and the branches in groups 2 and
  3): when the condition evaluates to a boolean, the loop goes on with the text in
  which the conditional is replaced by the selected branch and with the compile state
  as it was, so the other branch is dropped unvalidated; when the condition throws or
  evaluates to anything but a boolean, both branches are passed to the template
  expression validator, which appends a Diagnostic for every unresolvable \<^verbatim>\<open>{...}\<close>
  placeholder of the branch, the scan resumes behind the conditional, and the
  Diagnostics of both branches are among the errors of every run that returns.
\<close>

theorem conditional_validation:
  assumes "exec conditionalRegex result lastIndex = Some m"
  shows "(\<forall>b. evaluateExpression ev st (trim (grp m 1)) = Inr (JBool b) \<longrightarrow>
            evaluateConditionals_loop (Suc n) ev result lastIndex st code
              = evaluateConditionals_loop n ev
                  (replace_str result (m_text result m) (if b then grp m 2 else grp m 3)) 0 st code)
       \<and> ((\<forall>b. evaluateExpression ev st (trim (grp m 1)) \<noteq> Inr (JBool b)) \<longrightarrow>
            evaluateConditionals_loop (Suc (Suc (Suc n))) ev result lastIndex st code
              = evaluateConditionals_loop (Suc (Suc n)) ev result (m_end m)
                  (checkTemplateExpressions ev (grp m 3)
                     (checkTemplateExpressions ev (grp m 2) st code) code) code
            \<and> (\<forall>r' st'. evaluateConditionals_loop (Suc (Suc (Suc n))) ev result lastIndex st code = Some (r', st')
                 \<longrightarrow> (\<exists>es. errors st' = errors st @ templateDiagnostics ev st code (grp m 2)
                                       @ templateDiagnostics ev st code (grp m 3) @ es)))"
proof (intro conjI allI impI)
  fix b assume "evaluateExpression ev st (trim (grp m 1)) = Inr (JBool b)"
  with assms show "evaluateConditionals_loop (Suc n) ev result lastIndex st code
              = evaluateConditionals_loop n ev
                  (replace_str result (m_text result m) (if b then grp m 2 else grp m 3)) 0 st code"
    by (simp add: Let_def)
next
  assume nb: "\<forall>b. evaluateExpression ev st (trim (grp m 1)) \<noteq> Inr (JBool b)"
  let ?st1 = "checkTemplateExpressions ev (grp m 2) st code"
  let ?st2 = "checkTemplateExpressions ev (grp m 3) ?st1 code"
  from conditional_branches[OF assms] have
    n2: "exec conditionalRegex (grp m 2) 0 = None" and n3: "exec conditionalRegex (grp m 3) 0 = None"
    by (simp_all add: exec_conditionalRegex_None)
  have c2: "checkRenderContent (Suc (Suc n)) ev (grp m 2) st code = Some ?st1"
    using n2 by (rule checkRenderContent_no_conditional)
  have c3: "checkRenderContent (Suc (Suc n)) ev (grp m 3) ?st1 code = Some ?st2"
    using n3 by (rule checkRenderContent_no_conditional)
  show eq: "evaluateConditionals_loop (Suc (Suc (Suc n))) ev result lastIndex st code
              = evaluateConditionals_loop (Suc (Suc n)) ev result (m_end m) ?st2 code"
    using assms nb c2 c3
    by (subst evaluateConditionals_loop.simps)
       (auto simp: Let_def split: sum.splits jsval.splits
             simp del: evaluateConditionals_loop.simps checkRenderContent.simps)
  fix r' st'
  assume "evaluateConditionals_loop (Suc (Suc (Suc n))) ev result lastIndex st code = Some (r', st')"
  with eq have "evaluateConditionals_loop (Suc (Suc n)) ev result (m_end m) ?st2 code = Some (r', st')"
    by simp
  with validation_extends[of "Suc (Suc n)"] have "extends ?st2 st'" by blast
  then obtain es where es: "errors st' = errors ?st2 @ es" unfolding extends_def by blast
  have "errors ?st2 = errors st @ templateDiagnostics ev st code (grp m 2)
                        @ templateDiagnostics ev st code (grp m 3)"
    by (simp add: checkTemplateExpressions_diag templateDiagnostics_errors_update)
  with es show "\<exists>es. errors st' = errors st @ templateDiagnostics ev st code (grp m 2)
                                       @ templateDiagnostics ev st code (grp m 3) @ es"
    by simp
qed


theorem conditional_validation_witness:
  "map_option (\<lambda>(r, st). (r, errors st))
      (evaluateConditionals_loop (Suc (Suc 0)) lit_eval ''(true ? {5} : {missing})'' 0 initialState ''(true ? {5} : {missing})'')
     = Some (''{5} '', [])
   \<and> map_option (\<lambda>(r, st). (r, errors st))
      (evaluateConditionals_loop (Suc (Suc (Suc 0))) lit_eval ''(u ? {a} : {b})'' 0 initialState ''(u ? {a} : {b})'')
     = Some (''(u ? {a} : {b})'',
         [\<lparr>lineNumber = 1, message = templateMessage ''a''\<rparr>,
          \<lparr>lineNumber = 1, message = templateMessage ''b''\<rparr>])
   \<and> map_option errors
      (checkRenderContent (Suc (Suc (Suc 0))) lit_eval ''(true ? {5} : {missing})'' initialState ''(true ? {5} : {missing})'')
     = Some []"
proof -
  let ?A = "''(true ? {5} : {missing})''"
  have "map_option (\<lambda>m. (grp m 1, grp m 2, grp m 3, m_text ?A m)) (exec conditionalRegex ?A 0)
          = Some (''true '', ''{5} '', ''{missing}'', ?A)"
    by code_simp
  then obtain m where m: "exec conditionalRegex ?A 0 = Some m" "grp m 1 = ''true ''"
      "grp m 2 = ''{5} ''" "grp m 3 = ''{missing}''" "m_text ?A m = ?A"
    by auto
  have "evaluateExpression lit_eval initialState (trim ''true '') = Inr (JBool True)"
    by code_simp
  then have c: "evaluateExpression lit_eval initialState (trim (grp m 1)) = Inr (JBool True)"
    using m(2) by simp
  from conditional_validation[OF m(1), of lit_eval initialState "Suc 0" ?A, THEN conjunct1, rule_format, OF c]
  have "evaluateConditionals_loop (Suc (Suc 0)) lit_eval ?A 0 initialState ?A
          = evaluateConditionals_loop (Suc 0) lit_eval (replace_str ?A ?A ''{5} '') 0 initialState ?A"
    using m by (simp del: evaluateConditionals_loop.simps)
  moreover have "map_option (\<lambda>(r, st). (r, errors st))
      (evaluateConditionals_loop (Suc 0) lit_eval (replace_str ?A ?A ''{5} '') 0 initialState ?A)
     = Some (''{5} '', [])"
    by code_simp
  ultimately have A: "map_option (\<lambda>(r, st). (r, errors st))
      (evaluateConditionals_loop (Suc (Suc 0)) lit_eval ?A 0 initialState ?A) = Some (''{5} '', [])"
    by (simp del: evaluateConditionals_loop.simps)
  let ?B = "''(u ? {a} : {b})''"
  have "map_option (\<lambda>m. (grp m 1, grp m 2, grp m 3, m_end m)) (exec conditionalRegex ?B 0)
          = Some (''u '', ''{a} '', ''{b}'', 15)"
    by code_simp
  then obtain k where k: "exec conditionalRegex ?B 0 = Some k" "grp k 1 = ''u ''"
      "grp k 2 = ''{a} ''" "grp k 3 = ''{b}''" "m_end k = 15"
    by auto
  have "evaluateExpression lit_eval initialState (trim ''u '') = Inl (Error ''Cannot evaluate expression: u'')"
    by code_simp
  then have d: "\<forall>b. evaluateExpression lit_eval initialState (trim (grp k 1)) \<noteq> Inr (JBool b)"
    using k(2) by simp
  from conditional_validation[OF k(1), of lit_eval initialState 0 ?B, THEN conjunct2, THEN mp, OF d, THEN conjunct1]
  have "evaluateConditionals_loop (Suc (Suc (Suc 0))) lit_eval ?B 0 initialState ?B
          = evaluateConditionals_loop (Suc (Suc 0)) lit_eval ?B 15
              (checkTemplateExpressions lit_eval ''{b}'' (checkTemplateExpressions lit_eval ''{a} '' initialState ?B) ?B) ?B"
    using k by (simp del: evaluateConditionals_loop.simps)
  moreover have "map_option (\<lambda>(r, st). (r, errors st))
      (evaluateConditionals_loop (Suc (Suc 0)) lit_eval ?B 15
              (checkTemplateExpressions lit_eval ''{b}'' (checkTemplateExpressions lit_eval ''{a} '' initialState ?B) ?B) ?B)
     = Some (?B, [\<lparr>lineNumber = 1, message = templateMessage ''a''\<rparr>,
          \<lparr>lineNumber = 1, message = templateMessage ''b''\<rparr>])"
    by code_simp
  ultimately have B: "map_option (\<lambda>(r, st). (r, errors st))
      (evaluateConditionals_loop (Suc (Suc (Suc 0))) lit_eval ?B 0 initialState ?B)
     = Some (?B, [\<lparr>lineNumber = 1, message = templateMessage ''a''\<rparr>,
          \<lparr>lineNumber = 1, message = templateMessage ''b''\<rparr>])"
    by (simp del: evaluateConditionals_loop.simps)
  have C: "map_option errors
      (checkRenderContent (Suc (Suc (Suc 0))) lit_eval ?A initialState ?A) = Some []"
    by code_simp
  from A B C show ?thesis by blast
qed


section \<open>Occurrences, pieces and lines\<close>

lemma indexOf_from_ge: "indexOf_from s p i = -1 \<or> int i \<le> indexOf_from s p i"
proof (induction s arbitrary: i)
  case Nil
  show ?case by simp
next
  case (Cons c cs)
  from Cons[of "Suc i"] show ?case by auto
qed

lemma indexOf_from_shift:
  "indexOf_from s p i = (if indexOf_from s p 0 = -1 then -1 else indexOf_from s p 0 + int i)"
proof (induction s arbitrary: i)
  case Nil
  show ?case by simp
next
  case (Cons c cs)
  show ?case
  proof (cases "startsWith (c # cs) p")
    case True
    then show ?thesis by simp
  next
    case False
    have 1: "indexOf_from cs p (Suc i) = (if indexOf_from cs p 0 = -1 then -1 else indexOf_from cs p 0 + int (Suc i))"
      by (rule Cons)
    have 2: "indexOf_from cs p (Suc 0) = (if indexOf_from cs p 0 = -1 then -1 else indexOf_from cs p 0 + int (Suc 0))"
      by (rule Cons)
    have 3: "indexOf_from cs p 0 = -1 \<or> 0 \<le> indexOf_from cs p 0"
      using indexOf_from_ge[of cs p 0] by simp
    have l: "indexOf_from (c # cs) p i = indexOf_from cs p (Suc i)"
      and r: "indexOf_from (c # cs) p 0 = indexOf_from cs p (Suc 0)"
      using False by simp_all
    show ?thesis unfolding l r 1 2 using 3 by auto
  qed
qed

text \<open>\<open>indexOf\<close> finds the first occurrence.\<close>

definition firstOccurrence :: "string \<Rightarrow> string \<Rightarrow> string \<Rightarrow> bool" where
  "firstOccurrence s p a =
     ((\<exists>b. s = a @ p @ b) \<and> (\<forall>a' b'. s = a' @ p @ b' \<longrightarrow> length a \<le> length a'))"

lemma indexOf_Cons:
  "indexOf (c # cs) p = (if startsWith (c # cs) p then 0 else if indexOf cs p = -1 then -1 else indexOf cs p + 1)"
  unfolding indexOf_def using indexOf_from_shift[of cs p "Suc 0"] by simp

lemma indexOf_Nil: "indexOf [] p = (if p = [] then 0 else -1)"
  by (simp add: indexOf_def)

lemma indexOf_none: "indexOf s p = -1 \<longleftrightarrow> (\<forall>a b. s \<noteq> a @ p @ b)"
proof (induction s)
  case Nil
  show ?case by (auto simp: indexOf_Nil)
next
  case (Cons c cs)
  show ?case
  proof (cases "startsWith (c # cs) p")
    case True
    then obtain t where "c # cs = p @ t" unfolding startsWith_iff by blast
    then have "c # cs = [] @ p @ t" by simp
    with True show ?thesis unfolding indexOf_Cons by (metis zero_neq_neg_one)
  next
    case False
    have ge: "indexOf cs p = -1 \<or> 0 \<le> indexOf cs p"
      unfolding indexOf_def using indexOf_from_ge[of cs p 0] by simp
    have "(\<exists>a b. c # cs = a @ p @ b) \<longleftrightarrow> (\<exists>a b. cs = a @ p @ b)"
    proof
      assume "\<exists>a b. c # cs = a @ p @ b"
      then obtain a b where ab: "c # cs = a @ p @ b" by blast
      show "\<exists>a b. cs = a @ p @ b"
      proof (cases a)
        case Nil
        with ab False show ?thesis unfolding startsWith_iff by auto
      next
        case (Cons x a')
        with ab have "cs = a' @ p @ b" by simp
        then show ?thesis by blast
      qed
    next
      assume "\<exists>a b. cs = a @ p @ b"
      then obtain a b where "cs = a @ p @ b" by blast
      then have "c # cs = (c # a) @ p @ b" by simp
      then show "\<exists>a b. c # cs = a @ p @ b" by blast
    qed
    with Cons False ge show ?thesis unfolding indexOf_Cons by auto
  qed
qed

lemma indexOf_first:
  "indexOf s p = int k \<Longrightarrow> firstOccurrence s p (take k s)"
proof (induction s arbitrary: k)
  case Nil
  then show ?case by (auto simp: indexOf_Nil firstOccurrence_def split: if_splits)
next
  case (Cons c cs)
  show ?case
  proof (cases "startsWith (c # cs) p")
    case True
    with Cons.prems have "k = 0" unfolding indexOf_Cons by simp
    moreover from True obtain t where "c # cs = p @ t" unfolding startsWith_iff by blast
    ultimately show ?thesis unfolding firstOccurrence_def by auto
  next
    case False
    with Cons.prems have k: "indexOf cs p \<noteq> -1" "indexOf cs p + 1 = int k"
      unfolding indexOf_Cons by (auto split: if_splits)
    have ge: "0 \<le> indexOf cs p"
      using k(1) indexOf_from_ge[of cs p 0] unfolding indexOf_def by simp
    with k obtain k' where k': "k = Suc k'" "indexOf cs p = int k'"
      by (cases k) auto
    from Cons.IH[OF k'(2)] have f: "firstOccurrence cs p (take k' cs)" .
    then obtain b where b: "cs = take k' cs @ p @ b" unfolding firstOccurrence_def by blast
    have "\<exists>b. c # cs = take k (c # cs) @ p @ b"
      using b k'(1) by (intro exI[of _ b]) simp
    moreover have "length (take k (c # cs)) \<le> length a'" if "c # cs = a' @ p @ b'" for a' b'
    proof (cases a')
      case Nil
      with that False show ?thesis unfolding startsWith_iff by auto
    next
      case (Cons x a'')
      with that have "cs = a'' @ p @ b'" by simp
      with f have "length (take k' cs) \<le> length a''" unfolding firstOccurrence_def by blast
      with Cons k'(1) show ?thesis by simp
    qed
    ultimately show ?thesis unfolding firstOccurrence_def by blast
  qed
qed

lemma firstOccurrence_indexOf:
  assumes "firstOccurrence s p a"
  shows "indexOf s p = int (length a)"
proof -
  from assms obtain b where b: "s = a @ p @ b" unfolding firstOccurrence_def by blast
  then have "indexOf s p \<noteq> -1" unfolding indexOf_none by blast
  moreover have "indexOf s p = -1 \<or> 0 \<le> indexOf s p"
    unfolding indexOf_def using indexOf_from_ge[of s p 0] by simp
  ultimately obtain k where k: "indexOf s p = int k" by (metis nonneg_int_cases)
  from indexOf_first[OF k] have f: "firstOccurrence s p (take k s)" .
  then obtain b' where b': "s = take k s @ p @ b'" unfolding firstOccurrence_def by blast
  from f b have "length (take k s) \<le> length a" unfolding firstOccurrence_def by blast
  moreover from assms b' have "length a \<le> length (take k s)" unfolding firstOccurrence_def by blast
  moreover have "k \<le> length s"
  proof (rule ccontr)
    assume "\<not> k \<le> length s"
    then have "take k s = s" by simp
    with b' have "s = s @ p @ b'" by simp
    then have "p = []" by simp
    then have "indexOf s p = 0" by (cases s) (simp_all add: indexOf_Nil indexOf_Cons)
    with k \<open>\<not> k \<le> length s\<close> show False by simp
  qed
  ultimately show ?thesis using k by simp
qed





lemma split_acc_newlines: "length (split_acc [c] cur s) = Suc (count_list s c)"
  by (induction s arbitrary: cur) auto

text \<open>A line number is one more than the number of line feeds before the position.\<close>

lemma getLineNumber_count:
  "getLineNumber text position = Suc (count_list (take (nat position) text) nl)"
  by (simp add: getLineNumber_def split_def substring0_def split_acc_newlines)


section \<open>Placeholders with a fallback\<close>





section \<open>The line of a Diagnostic\<close>

lemma checkMatch_line:
  "d \<in> set (checkMatch ev st code content pc m) \<Longrightarrow>
     lineNumber d = getLineNumber code (originalPosition code content pc (m_text pc m))"
  by (auto simp: checkMatch_def Let_def split: if_splits)

text \<open>
  Claim C10.  Every Diagnostic of the template expression validator comes from a match
  of \<open>templateRegex\<close> in the masked copy of the content.  When the matched text occurs
  in the full source, the line reported is that of its first occurrence there (one
  more than the number of line feeds before it), wherever the match itself stands;
  when it occurs nowhere, the line is computed from the position of the content in
  the source plus the position of the matched text in the masked copy.
\<close>

theorem diagnostic_line_number:
  assumes "d \<in> set (templateDiagnostics ev st code content)"
  shows "\<exists>m \<in> set (match_all templateRegex (maskAttributes content) 0).
           d \<in> set (checkMatch ev st code content (maskAttributes content) m)
         \<and> (\<forall>a. firstOccurrence code (m_text (maskAttributes content) m) a
                \<longrightarrow> lineNumber d = Suc (count_list a nl))
         \<and> ((\<forall>a b. code \<noteq> a @ m_text (maskAttributes content) m @ b) \<longrightarrow>
              lineNumber d = getLineNumber code
                 (indexOf code content
                  + indexOf (maskAttributes content) (m_text (maskAttributes content) m)))"
proof -
  let ?pc = "maskAttributes content"
  from assms obtain m where m: "m \<in> set (match_all templateRegex ?pc 0)"
     "d \<in> set (checkMatch ev st code content ?pc m)"
    unfolding templateDiagnostics_def by auto
  from checkMatch_line[OF m(2)] have
    l: "lineNumber d = getLineNumber code (originalPosition code content ?pc (m_text ?pc m))" .
  have 1: "lineNumber d = Suc (count_list a nl)" if "firstOccurrence code (m_text ?pc m) a" for a
  proof -
    from firstOccurrence_indexOf[OF that] have i: "indexOf code (m_text ?pc m) = int (length a)" .
    from that obtain b where "code = a @ m_text ?pc m @ b" unfolding firstOccurrence_def by blast
    then have "take (length a) code = a" by simp
    with l i show ?thesis by (simp add: originalPosition_def getLineNumber_count)
  qed
  have 2: "lineNumber d = getLineNumber code (indexOf code content + indexOf ?pc (m_text ?pc m))"
    if "\<forall>a b. code \<noteq> a @ m_text ?pc m @ b"
  proof -
    from that have "indexOf code (m_text ?pc m) = -1" unfolding indexOf_none .
    with l show ?thesis by (simp add: originalPosition_def)
  qed
  from m 1 2 show ?thesis by blast
qed


text \<open>
  Two examples: a placeholder that stands on lines 2 and 3, and one whose text the
  masking of an \<^verbatim>\<open>on:\<close> attribute has changed.
\<close>

definition repeatedSource :: string where
  "repeatedSource = ''<render>'' @ [nl] @ ''{x}'' @ [nl] @ ''{x}'' @ [nl] @ ''</render>''"

definition repeatedContent :: string where
  "repeatedContent = [nl] @ ''{x}'' @ [nl] @ ''{x}'' @ [nl]"

definition maskedSource :: string where
  "maskedSource = ''<render>'' @ [nl, nl] @ ''{ a on:click={f} b}</render>''"

definition maskedContent :: string where
  "maskedContent = [nl, nl] @ ''{ a on:click={f} b}''"

theorem diagnostic_line_number_witness:
  "map lineNumber (templateDiagnostics lit_eval initialState repeatedSource repeatedContent) = [2, 2]
   \<and> map lineNumber (templateDiagnostics lit_eval initialState maskedSource maskedContent) = [3]"
proof -
  let ?ds = "templateDiagnostics lit_eval initialState repeatedSource repeatedContent"
  let ?pc = "maskAttributes repeatedContent"
  have len: "length ?ds = 2" by code_simp
  have mtx: "list_all (\<lambda>m. m_text ?pc m = ''{x}'') (match_all templateRegex ?pc 0)" by code_simp
  have "indexOf repeatedSource ''{x}'' = int 9" by code_simp
  from indexOf_first[OF this] have fo: "firstOccurrence repeatedSource ''{x}'' (take 9 repeatedSource)" .
  have cnt: "Suc (count_list (take 9 repeatedSource) nl) = 2" by code_simp
  have line: "lineNumber d = 2" if "d \<in> set ?ds" for d
  proof -
    from diagnostic_line_number[OF that] obtain m where m: "m \<in> set (match_all templateRegex ?pc 0)"
      "\<forall>a. firstOccurrence repeatedSource (m_text ?pc m) a \<longrightarrow> lineNumber d = Suc (count_list a nl)"
      by blast
    from mtx m(1) have "m_text ?pc m = ''{x}''" unfolding list_all_iff by blast
    with m(2) fo cnt show ?thesis by simp
  qed
  obtain d1 d2 where ds: "?ds = [d1, d2]"
    using len by (metis (no_types, lifting) length_0_conv length_Suc_conv numeral_2_eq_2)
  with line[of d1] line[of d2] have A: "map lineNumber ?ds = [2, 2]" by simp
  let ?es = "templateDiagnostics lit_eval initialState maskedSource maskedContent"
  let ?qc = "maskAttributes maskedContent"
  have len': "length ?es = 1" by code_simp
  have mtx': "list_all (\<lambda>m. m_text ?qc m = ''{ a __PLACEHOLDER_0__ b}'') (match_all templateRegex ?qc 0)"
    by code_simp
  have "indexOf maskedSource ''{ a __PLACEHOLDER_0__ b}'' = -1" by code_simp
  then have nf: "\<forall>a b. maskedSource \<noteq> a @ ''{ a __PLACEHOLDER_0__ b}'' @ b" unfolding indexOf_none .
  have ln: "getLineNumber maskedSource (indexOf maskedSource maskedContent
               + indexOf ?qc ''{ a __PLACEHOLDER_0__ b}'') = 3" by code_simp
  have line': "lineNumber d = 3" if "d \<in> set ?es" for d
  proof -
    from diagnostic_line_number[OF that] obtain m where m: "m \<in> set (match_all templateRegex ?qc 0)"
      "(\<forall>a b. maskedSource \<noteq> a @ m_text ?qc m @ b) \<longrightarrow>
              lineNumber d = getLineNumber maskedSource
                 (indexOf maskedSource maskedContent + indexOf ?qc (m_text ?qc m))"
      by blast
    from mtx' m(1) have "m_text ?qc m = ''{ a __PLACEHOLDER_0__ b}''" unfolding list_all_iff by blast
    with m(2) nf ln show ?thesis by simp
  qed
  obtain e1 where "?es = [e1]"
    using len' by (metis (no_types, lifting) length_0_conv length_Suc_conv One_nat_def)
  with line'[of e1] have B: "map lineNumber ?es = [3]" by simp
  from A B show ?thesis by blast
qed


section \<open>Failure is all or nothing\<close>

text \<open>
  For a source with a render block whose validation returns: the errors are those
  collected while folding the conditionals followed by the Diagnostics of every
  placeholder of the folded content (the scan never stops at a Diagnostic); when
  there is at least one, \<^verbatim>\<open>checkTemplates\<close> throws one error whose message lists them all,
  one per line after the heading, and no file is written; when there is none, the
  outcome is that of the generator, and a file is written only with its markup.
\<close>

lemma checkTemplates_returning_run:
  assumes "exec renderRegex code 0 = Some rm"
      and "checkRenderContent fuel ev (grp rm 1) (parseVariables ev code initialState) code = Some st'"
  shows "(\<exists>n processed st1. fuel = Suc n
            \<and> evaluateConditionals n ev (grp rm 1) (parseVariables ev code initialState) code
                  = Some (processed, st1)
            \<and> errors st' = errors st1 @ templateDiagnostics ev st1 code processed)
       \<and> (errors st' \<noteq> [] \<longrightarrow>
            checkTemplates fuel ev code filename
              = Some (Inl (Error (''Template checking failed:'' @ [nl]
                                   @ join (map errorLine (errors st')) [nl])), []))
       \<and> (errors st' = [] \<longrightarrow>
            checkTemplates fuel ev code filename
              = (case generateHtml ev (grp rm 1) st' of
                   Inl e \<Rightarrow> Some (Inl e, [])
                 | Inr html \<Rightarrow>
                     Some (Inr code,
                       [\<lparr>directory = ''./out'', fileName = replace_str filename ''.remi'' ''.html'',
                         contents = html\<rparr>])))"
proof -
  from assms(2) obtain n where n: "fuel = Suc n" by (cases fuel) auto
  with assms(2) obtain processed st1 where
    l: "evaluateConditionals_loop n ev (grp rm 1) 0 (parseVariables ev code initialState) code
          = Some (processed, st1)"
    and s: "st' = checkTemplateExpressions ev processed st1 code"
    by (auto split: option.splits prod.splits)
  from s have "errors st' = errors st1 @ templateDiagnostics ev st1 code processed"
    by (simp add: checkTemplateExpressions_diag)
  with n l have 1: "\<exists>n processed st1. fuel = Suc n
            \<and> evaluateConditionals n ev (grp rm 1) (parseVariables ev code initialState) code
                  = Some (processed, st1)
            \<and> errors st' = errors st1 @ templateDiagnostics ev st1 code processed"
    unfolding evaluateConditionals_def by blast
  have 2: "checkTemplates fuel ev code filename
              = Some (Inl (Error (''Template checking failed:'' @ [nl]
                                   @ join (map errorLine (errors st')) [nl])), [])"
    if "errors st' \<noteq> []"
    using assms that by (simp add: checkTemplates_def failure_def)
  have 3: "checkTemplates fuel ev code filename
              = (case generateHtml ev (grp rm 1) st' of
                   Inl e \<Rightarrow> Some (Inl e, [])
                 | Inr html \<Rightarrow>
                     Some (Inr code,
                       [\<lparr>directory = ''./out'', fileName = replace_str filename ''.remi'' ''.html'',
                         contents = html\<rparr>]))"
    if "errors st' = []"
    using assms that by (simp add: checkTemplates_def split: sum.splits)
  from 1 2 3 show ?thesis by blast
qed

lemma checkTemplates_returning_run_example:
  "checkTemplates (Suc (Suc 0)) lit_eval ''<render>{x}{y}</render>'' ''a.remi''
     = Some (Inl (Error (''Template checking failed:'' @ [nl]
                  @ ''Line 1: '' @ templateMessage ''x'' @ [nl]
                  @ ''Line 1: '' @ templateMessage ''y'')), [])"
proof -
  let ?code = "''<render>{x}{y}</render>''"
  have "map_option (\<lambda>m. grp m 1) (exec renderRegex ?code 0) = Some ''{x}{y}''" by code_simp
  then obtain rm where rm: "exec renderRegex ?code 0 = Some rm" "grp rm 1 = ''{x}{y}''" by auto
  have "map_option errors
          (checkRenderContent (Suc (Suc 0)) lit_eval ''{x}{y}'' (parseVariables lit_eval ?code initialState) ?code)
        = Some [\<lparr>lineNumber = 1, message = templateMessage ''x''\<rparr>,
                \<lparr>lineNumber = 1, message = templateMessage ''y''\<rparr>]"
    by code_simp
  then obtain st' where st': "checkRenderContent (Suc (Suc 0)) lit_eval (grp rm 1)
           (parseVariables lit_eval ?code initialState) ?code = Some st'"
     "errors st' = [\<lparr>lineNumber = 1, message = templateMessage ''x''\<rparr>,
                    \<lparr>lineNumber = 1, message = templateMessage ''y''\<rparr>]"
    unfolding rm(2) by auto
  have j: "join (map errorLine [\<lparr>lineNumber = 1, message = templateMessage ''x''\<rparr>,
                    \<lparr>lineNumber = 1, message = templateMessage ''y''\<rparr>]) [nl]
        = ''Line 1: '' @ templateMessage ''x'' @ [nl] @ ''Line 1: '' @ templateMessage ''y''"
    by code_simp
  from checkTemplates_returning_run[OF rm(1) st'(1), of "''a.remi''", THEN conjunct2, THEN conjunct1] st'(2)
  have "checkTemplates (Suc (Suc 0)) lit_eval ?code ''a.remi''
     = Some (Inl (Error (''Template checking failed:'' @ [nl]
          @ join (map errorLine [\<lparr>lineNumber = 1, message = templateMessage ''x''\<rparr>,
                    \<lparr>lineNumber = 1, message = templateMessage ''y''\<rparr>]) [nl])), [])"
    by simp
  then show ?thesis unfolding j by simp
qed


subsection \<open>A validation that does not return\<close>

text \<open>
  \<^verbatim>\<open>evaluateConditionals\<close> folds a conditional with \<^verbatim>\<open>result.replace(fullMatch, branch)\<close>,
  where \<^verbatim>\<open>replace\<close> expands \<^verbatim>\<open>$&\<close> in the branch to the text it replaces, and then scans
  again from the start.  In the content below the second conditional has the true
  branch \<^verbatim>\<open>$&\<close>: folding it leaves the content as it was.  The first conditional has a
  condition nothing resolves, so on every round its branches are validated and the
  Diagnostics for \<open>x\<close> and \<open>y\<close> are pushed.
\<close>

definition loopingContent :: string where
  "loopingContent = ''(u ? {x} : {y}) (true ? $&: b)''"

definition loopingSource :: string where
  "loopingSource = ''<render>'' @ loopingContent @ ''</render>''"

lemma looping_first:
  "\<exists>m. exec conditionalRegex loopingContent 0 = Some m \<and> grp m 1 = ''u '' \<and> grp m 2 = ''{x} ''
       \<and> grp m 3 = ''{y}'' \<and> m_end m = 15"
proof -
  have "map_option (\<lambda>m. (grp m 1, grp m 2, grp m 3, m_end m)) (exec conditionalRegex loopingContent 0)
          = Some (''u '', ''{x} '', ''{y}'', 15)"
    by code_simp
  then show ?thesis by auto
qed

lemma looping_second:
  "\<exists>m. exec conditionalRegex loopingContent 15 = Some m \<and> grp m 1 = ''true '' \<and> grp m 2 = ''$&''
       \<and> m_text loopingContent m = ''(true ? $&: b)''"
proof -
  have "map_option (\<lambda>m. (grp m 1, grp m 2, m_text loopingContent m)) (exec conditionalRegex loopingContent 15)
          = Some (''true '', ''$&'', ''(true ? $&: b)'')"
    by code_simp
  then show ?thesis by auto
qed

lemma looping_replace: "replace_str loopingContent ''(true ? $&: b)'' ''$&'' = loopingContent"
  by code_simp

lemma looping_condition_true: "evaluateExpression lit_eval st (trim ''true '') = Inr (JBool True)"
proof -
  have "lit_eval (trim ''true '') = Some (JBool True)" by code_simp
  then show ?thesis by (simp add: evaluateExpression_def)
qed

lemma looping_condition_unknown:
  assumes "variables st = Map.empty"
  shows "evaluateExpression lit_eval st (trim ''u '') = Inl (Error (''Cannot evaluate expression: u''))"
proof -
  have "lit_eval (trim ''u '') = None" and "trim ''u '' = ''u''" by code_simp+
  with assms show ?thesis by (simp add: evaluateExpression_def)
qed

lemma looping_never_returns:
  "\<forall>st. variables st = Map.empty \<longrightarrow>
      evaluateConditionals_loop n lit_eval loopingContent 0 st code = None
    \<and> evaluateConditionals_loop n lit_eval loopingContent 15 st code = None"
proof (induction n)
  case 0
  show ?case by simp
next
  case (Suc n)
  show ?case
  proof (intro allI impI conjI)
    fix st :: CompileState assume v: "variables st = Map.empty"
    from looping_second obtain m where m: "exec conditionalRegex loopingContent 15 = Some m"
      "grp m 1 = ''true ''" "grp m 2 = ''$&''" "m_text loopingContent m = ''(true ? $&: b)''"
      by blast
    have "evaluateExpression lit_eval st (trim (grp m 1)) = Inr (JBool True)"
      unfolding m(2) by (rule looping_condition_true)
    with m have "evaluateConditionals_loop (Suc n) lit_eval loopingContent 15 st code
            = evaluateConditionals_loop n lit_eval loopingContent 0 st code"
      by (subst evaluateConditionals_loop.simps)
         (simp add: looping_replace Let_def del: evaluateConditionals_loop.simps)
    with Suc v show "evaluateConditionals_loop (Suc n) lit_eval loopingContent 15 st code = None"
      by simp
  next
    fix st :: CompileState assume v: "variables st = Map.empty"
    from looping_first obtain m where m: "exec conditionalRegex loopingContent 0 = Some m"
      "grp m 1 = ''u ''" "grp m 2 = ''{x} ''" "grp m 3 = ''{y}''" "m_end m = 15"
      by blast
    have "evaluateExpression lit_eval st (trim (grp m 1)) = Inl (Error (''Cannot evaluate expression: u''))"
      unfolding m(2) using v by (rule looping_condition_unknown)
    with m have step: "evaluateConditionals_loop (Suc n) lit_eval loopingContent 0 st code
            = (case checkRenderContent n lit_eval ''{x} '' st code of
                 None \<Rightarrow> None
               | Some state1 \<Rightarrow>
                   (case checkRenderContent n lit_eval ''{y}'' state1 code of
                      None \<Rightarrow> None
                    | Some state2 \<Rightarrow> evaluateConditionals_loop n lit_eval loopingContent 15 state2 code))"
      by (subst evaluateConditionals_loop.simps)
         (simp add: Let_def split: option.splits del: evaluateConditionals_loop.simps checkRenderContent.simps)
    show "evaluateConditionals_loop (Suc n) lit_eval loopingContent 0 st code = None"
    proof (cases "checkRenderContent n lit_eval ''{x} '' st code")
      case None
      with step show ?thesis by (simp del: evaluateConditionals_loop.simps checkRenderContent.simps)
    next
      case (Some st1)
      with validation_extends[of n] have e1: "extends st st1" by blast
      show ?thesis
      proof (cases "checkRenderContent n lit_eval ''{y}'' st1 code")
        case None
        with step Some show ?thesis by (simp del: evaluateConditionals_loop.simps checkRenderContent.simps)
      next
        case st2: (Some st2)
        with validation_extends[of n] have "extends st1 st2" by blast
        with e1 v have "variables st2 = Map.empty" by (simp add: extends_def)
        with Suc have "evaluateConditionals_loop n lit_eval loopingContent 15 st2 code = None" by blast
        with step Some st2 show ?thesis
          by (simp del: evaluateConditionals_loop.simps checkRenderContent.simps)
      qed
    qed
  qed
qed

lemma looping_render:
  "\<exists>rm. exec renderRegex loopingSource 0 = Some rm \<and> grp rm 1 = loopingContent"
proof -
  have "map_option (\<lambda>m. grp m 1) (exec renderRegex loopingSource 0) = Some loopingContent"
    by code_simp
  then show ?thesis by auto
qed

lemma looping_variables: "variables (parseVariables lit_eval loopingSource initialState) = Map.empty"
proof -
  have "length (match_all varRegex loopingSource 0) = 0" by code_simp
  then have "match_all varRegex loopingSource 0 = []" by simp
  then show ?thesis
    by (simp add: parseVariables_def parseVariables_loop_foldl initialState_def)
qed

text \<open>
  Claim C1.  On \<open>loopingSource\<close>, a source with a render block, \<^verbatim>\<open>checkTemplates\<close> does not
  return, whatever fuel it is given: the render content is \<open>loopingContent\<close>, the loop
  passes its first conditional with the Diagnostics for \<open>x\<close> and \<open>y\<close> in the compile
  state, and no failure is ever raised for them.
\<close>

theorem validation_never_returns:
  "(\<forall>fuel. checkTemplates fuel lit_eval loopingSource ''page.remi'' = None)
   \<and> map_option (\<lambda>m. grp m 1) (exec renderRegex loopingSource 0) = Some loopingContent
   \<and> (\<forall>n. evaluateConditionals_loop (Suc (Suc (Suc n))) lit_eval loopingContent 0
              (parseVariables lit_eval loopingSource initialState) loopingSource
            = evaluateConditionals_loop (Suc (Suc n)) lit_eval loopingContent 15
                (checkTemplateExpressions lit_eval ''{y}''
                   (checkTemplateExpressions lit_eval ''{x} ''
                      (parseVariables lit_eval loopingSource initialState) loopingSource) loopingSource)
                loopingSource)
   \<and> errors (checkTemplateExpressions lit_eval ''{y}''
                (checkTemplateExpressions lit_eval ''{x} ''
                   (parseVariables lit_eval loopingSource initialState) loopingSource) loopingSource)
       = [\<lparr>lineNumber = 1, message = templateMessage ''x''\<rparr>,
          \<lparr>lineNumber = 1, message = templateMessage ''y''\<rparr>]"
proof (intro conjI allI)
  fix fuel
  from looping_render obtain rm where rm: "exec renderRegex loopingSource 0 = Some rm"
    "grp rm 1 = loopingContent" by blast
  have "checkRenderContent fuel lit_eval loopingContent
          (parseVariables lit_eval loopingSource initialState) loopingSource = None"
  proof (cases fuel)
    case 0
    then show ?thesis by simp
  next
    case (Suc n)
    from looping_never_returns[of n loopingSource] looping_variables
    have "evaluateConditionals_loop n lit_eval loopingContent 0
            (parseVariables lit_eval loopingSource initialState) loopingSource = None"
      by blast
    with Suc show ?thesis by (simp del: evaluateConditionals_loop.simps)
  qed
  with rm show "checkTemplates fuel lit_eval loopingSource ''page.remi'' = None"
    by (simp add: checkTemplates_def)
next
  show "map_option (\<lambda>m. grp m 1) (exec renderRegex loopingSource 0) = Some loopingContent"
    by code_simp
next
  fix n
  from looping_first obtain m where m: "exec conditionalRegex loopingContent 0 = Some m"
      "grp m 1 = ''u ''" "grp m 2 = ''{x} ''" "grp m 3 = ''{y}''" "m_end m = 15"
    by blast
  have "\<forall>b. evaluateExpression lit_eval (parseVariables lit_eval loopingSource initialState) (trim (grp m 1))
           \<noteq> Inr (JBool b)"
    unfolding m(2) by (simp add: looping_condition_unknown[OF looping_variables])
  from unresolved_condition_step[OF m(1) this, of n loopingSource]
  show "evaluateConditionals_loop (Suc (Suc (Suc n))) lit_eval loopingContent 0
              (parseVariables lit_eval loopingSource initialState) loopingSource
            = evaluateConditionals_loop (Suc (Suc n)) lit_eval loopingContent 15
                (checkTemplateExpressions lit_eval ''{y}''
                   (checkTemplateExpressions lit_eval ''{x} ''
                      (parseVariables lit_eval loopingSource initialState) loopingSource) loopingSource)
                loopingSource"
    unfolding m(3,4,5) .
next
  show "errors (checkTemplateExpressions lit_eval ''{y}''
                (checkTemplateExpressions lit_eval ''{x} ''
                   (parseVariables lit_eval loopingSource initialState) loopingSource) loopingSource)
       = [\<lparr>lineNumber = 1, message = templateMessage ''x''\<rparr>,
          \<lparr>lineNumber = 1, message = templateMessage ''y''\<rparr>]"
    by code_simp
qed

theorem validation_never_returns_witness:
  "checkTemplates 1000 lit_eval loopingSource ''page.remi'' = None"
  using validation_never_returns by blast

section \<open>Initialized variables\<close>

text \<open>
  An initializer that evaluates to \<^verbatim>\<open>undefined\<close> gives an entry that is initialized and
  whose value is undefined.
\<close>

theorem initialized_undefined_counterexample:
  "variables (parseVariables lit_eval ''@client let x = undefined;'' initialState) ''x''
     = Some \<lparr>vtype = ''client'', vvalue = JUndefined, initialized = True\<rparr>"
  by code_simp

lemma find_Some_set: "List.find P xs = Some x \<Longrightarrow> x \<in> set xs \<and> P x"
  by (induction xs) (auto split: if_splits)

text \<open>
  Claim C4, amended.  An entry is initialized only when a declaration of its name has
  an initializer that evaluated without error, and its value is then what the
  initializer evaluated to (which can be \<^verbatim>\<open>undefined\<close>); the value of an uninitialized
  entry is undefined; validation leaves the symbol table as the extractor built it;
  and the value the expression evaluator takes from the table is never
  \<^verbatim>\<open>undefined\<close>.
\<close>

theorem initialized_entry_origin:
  assumes "variables (parseVariables ev code initialState) name = Some var"
  shows "(initialized var \<longrightarrow>
            (\<exists>m \<in> set (match_all varRegex code 0).
               grp m 3 = name \<and> grp m 4 \<noteq> [] \<and> ev (grp m 4) = Some (vvalue var)))
       \<and> (\<not> initialized var \<longrightarrow> vvalue var = JUndefined)
       \<and> (\<forall>fuel content st'.
             checkRenderContent fuel ev content (parseVariables ev code initialState) code = Some st'
            \<longrightarrow> variables st' = variables (parseVariables ev code initialState))
       \<and> (\<forall>expr v. ev expr = None \<and>
             evaluateExpression ev (parseVariables ev code initialState) expr = Inr v
            \<longrightarrow> v \<noteq> JUndefined)"
proof -
  from assms obtain m where m: "List.find (\<lambda>m. grp m 3 = name) (rev (match_all varRegex code 0)) = Some m"
    "var = varData ev m"
    unfolding parseVariables_table by auto
  from find_Some_set[OF m(1)] have "m \<in> set (match_all varRegex code 0)" "grp m 3 = name" by auto
  moreover have "initialized (varData ev m) \<longrightarrow> grp m 4 \<noteq> [] \<and> ev (grp m 4) = Some (vvalue (varData ev m))"
    by (auto simp: varData_def Let_def split: option.splits if_splits)
  moreover have "\<not> initialized (varData ev m) \<longrightarrow> vvalue (varData ev m) = JUndefined"
    by (auto simp: varData_def Let_def split: option.splits if_splits)
  moreover have "\<forall>expr v. ev expr = None \<and>
             evaluateExpression ev (parseVariables ev code initialState) expr = Inr v
            \<longrightarrow> v \<noteq> JUndefined"
    by (auto simp: evaluateExpression_def split: option.splits if_splits)
  moreover have "\<forall>fuel content st'.
             checkRenderContent fuel ev content (parseVariables ev code initialState) code = Some st'
            \<longrightarrow> variables st' = variables (parseVariables ev code initialState)"
    using validation_extends unfolding extends_def by blast
  ultimately show ?thesis using m(2) by blast
qed

theorem initialized_entry_origin_witness:
  "variables (parseVariables lit_eval ''@client let x = undefined; @client let y = 5;'' initialState) ''y''
     = Some \<lparr>vtype = ''client'', vvalue = JNum 5, initialized = True\<rparr>
   \<and> (\<exists>m \<in> set (match_all varRegex ''@client let x = undefined; @client let y = 5;'' 0).
         grp m 3 = ''y'' \<and> grp m 4 \<noteq> [] \<and> lit_eval (grp m 4) = Some (JNum 5))"
proof -
  have v: "variables (parseVariables lit_eval ''@client let x = undefined; @client let y = 5;'' initialState) ''y''
     = Some \<lparr>vtype = ''client'', vvalue = JNum 5, initialized = True\<rparr>"
    by code_simp
  from initialized_entry_origin[OF v, THEN conjunct1] v show ?thesis by simp
qed


section \<open>Conditionals in the generated markup\<close>

text \<open>The text \<^verbatim>\<open>generateHtml\<close> formats, step by step.\<close>

definition strippedContent :: "string \<Rightarrow> string" where
  "strippedContent renderContent = replace_all onAttributeRegex renderContent (\<lambda>k m. [])"

definition foldedContent :: "evaluator \<Rightarrow> CompileState \<Rightarrow> string \<Rightarrow> string" where
  "foldedContent ev state renderContent =
     replace_all conditionalRegex (strippedContent renderContent)
       (\<lambda>k m. conditionalReplacer ev state (grp m 1) (grp m 2) (grp m 3))"

definition substitutedContent :: "evaluator \<Rightarrow> CompileState \<Rightarrow> string \<Rightarrow> string" where
  "substitutedContent ev state renderContent =
     replace_all templateRegex (foldedContent ev state renderContent)
       (\<lambda>k m. templateReplacer ev state (grp m 1))"

lemma generateHtml_steps:
  "generateHtml ev renderContent state =
     formatHtml (''<div>'' @ replace_all missedAttributeRegex (substitutedContent ev state renderContent) (\<lambda>k m. [])
                 @ ''</div>'')"
  by (simp add: generateHtml_def substitutedContent_def foldedContent_def strippedContent_def Let_def)




section \<open>Placeholders in the generated markup\<close>














end
